theory Spec2Isabelle
  imports Complex_Main
begin

section \<open>JavaScript numbers\<close>

text \<open>
  The minimiser of \<^verbatim>\<open>src/utils.js\<close> computes with JavaScript numbers. A number is
  the not-a-number value, one of the two infinities, or a finite value. The two zeros of
  the format are identified: every comparison of the code identifies them.

  The operators \<^verbatim>\<open>+ - * /\<close> and \<^verbatim>\<open>Math.sqrt\<close> follow the IEEE-754 rules on
  the special values; a finite result is the real result passed through the rounding
  \<open>rnd\<close> of the format, which is a parameter of every definition below. The program
  runs with \<open>binary64\<close>, the round-to-nearest of the double-precision format, which may
  also overflow to an infinity. \<open>exact\<close> is the arithmetic that does not round.
\<close>

datatype number = NaN | NInf | PInf | Fin real

type_synonym rounding = "real \<Rightarrow> number"

definition exact :: rounding where
  "exact = Fin"

text \<open>
  \<open>binary64\<close> is the rounding the program runs with: round to nearest, ties to even,
  in the double-precision format. In the binade of exponent \<open>e\<close> the numbers of the
  format are the multiples of \<open>2\<^sup>e\<^sup>-\<^sup>5\<^sup>2\<close>, the exponent being \<open>-1022\<close>
  at least (the subnormal numbers); a rounded magnitude of \<open>2\<^sup>1\<^sup>0\<^sup>2\<^sup>4\<close> or more
  overflows to the infinity of its sign.
\<close>

definition nearest_even :: "real \<Rightarrow> int" where
  "nearest_even z =
     (let n = \<lfloor>z\<rfloor>; r = z - of_int n
      in if r < 1 / 2 then n else if 1 / 2 < r then n + 1 else if even n then n else n + 1)"

definition binary64 :: rounding where
  "binary64 x =
     (if x = 0 then Fin 0
      else
        (let e = max \<lfloor>log 2 \<bar>x\<bar>\<rfloor> (- 1022);
             q = (2::real) powr of_int (e - 52);
             y = of_int (nearest_even (x / q)) * q
         in if 2 ^ 1024 \<le> \<bar>y\<bar> then (if 0 < x then PInf else NInf) else Fin y))"

text \<open>
  \<open>accurate rnd R u h\<close> is the standard model of floating-point arithmetic, on the
  range \<open>R\<close>: every real of magnitude at most \<open>R\<close> is rounded to a finite number,
  with a relative error of at most \<open>u\<close> up to an absolute error of \<open>h\<close>.
\<close>

definition accurate :: "rounding \<Rightarrow> real \<Rightarrow> real \<Rightarrow> real \<Rightarrow> bool" where
  "accurate rnd R u h = (\<forall>x. \<bar>x\<bar> \<le> R \<longrightarrow> (\<exists>y. rnd x = Fin y \<and> \<bar>y - x\<bar> \<le> u * \<bar>x\<bar> + h))"

fun isNaN :: "number \<Rightarrow> bool" where
  "isNaN NaN = True"
| "isNaN _ = False"

fun isFinite :: "number \<Rightarrow> bool" where
  "isFinite (Fin a) = True"
| "isFinite _ = False"

text \<open>The comparisons \<^verbatim>\<open><\<close>, \<^verbatim>\<open>===\<close>, \<^verbatim>\<open><=\<close> and \<^verbatim>\<open>>\<close>: false on NaN.\<close>

fun lt :: "number \<Rightarrow> number \<Rightarrow> bool" where
  "lt NaN y = False"
| "lt x NaN = False"
| "lt x NInf = False"
| "lt NInf y = True"
| "lt PInf y = False"
| "lt (Fin a) PInf = True"
| "lt (Fin a) (Fin b) = (a < b)"

fun seq :: "number \<Rightarrow> number \<Rightarrow> bool" where
  "seq NaN y = False"
| "seq x NaN = False"
| "seq x y = (x = y)"

definition le :: "number \<Rightarrow> number \<Rightarrow> bool" where
  "le x y = (lt x y \<or> seq x y)"

definition gt :: "number \<Rightarrow> number \<Rightarrow> bool" where
  "gt x y = lt y x"

fun neg :: "number \<Rightarrow> number" where
  "neg NaN = NaN"
| "neg NInf = PInf"
| "neg PInf = NInf"
| "neg (Fin a) = Fin (- a)"

fun add :: "rounding \<Rightarrow> number \<Rightarrow> number \<Rightarrow> number" where
  "add rnd NaN y = NaN"
| "add rnd x NaN = NaN"
| "add rnd PInf NInf = NaN"
| "add rnd NInf PInf = NaN"
| "add rnd PInf y = PInf"
| "add rnd NInf y = NInf"
| "add rnd (Fin a) PInf = PInf"
| "add rnd (Fin a) NInf = NInf"
| "add rnd (Fin a) (Fin b) = rnd (a + b)"

definition sub :: "rounding \<Rightarrow> number \<Rightarrow> number \<Rightarrow> number" where
  "sub rnd x y = add rnd x (neg y)"

text \<open>The sign of an infinite product or quotient; \<open>signed True\<close> is the positive one.\<close>

fun signed :: "bool \<Rightarrow> number" where
  "signed True = PInf"
| "signed False = NInf"

fun mul :: "rounding \<Rightarrow> number \<Rightarrow> number \<Rightarrow> number" where
  "mul rnd NaN y = NaN"
| "mul rnd x NaN = NaN"
| "mul rnd PInf PInf = PInf"
| "mul rnd PInf NInf = NInf"
| "mul rnd NInf PInf = NInf"
| "mul rnd NInf NInf = PInf"
| "mul rnd PInf (Fin b) = (if b = 0 then NaN else signed (0 < b))"
| "mul rnd NInf (Fin b) = (if b = 0 then NaN else signed (b < 0))"
| "mul rnd (Fin a) PInf = (if a = 0 then NaN else signed (0 < a))"
| "mul rnd (Fin a) NInf = (if a = 0 then NaN else signed (a < 0))"
| "mul rnd (Fin a) (Fin b) = rnd (a * b)"

fun divide_num :: "rounding \<Rightarrow> number \<Rightarrow> number \<Rightarrow> number" where
  "divide_num rnd NaN y = NaN"
| "divide_num rnd x NaN = NaN"
| "divide_num rnd PInf (Fin b) = signed (0 \<le> b)"
| "divide_num rnd NInf (Fin b) = signed (b < 0)"
| "divide_num rnd (Fin a) (Fin b) =
     (if b = 0 then (if a = 0 then NaN else signed (0 < a)) else rnd (a / b))"
| "divide_num rnd (Fin a) y = Fin 0"
| "divide_num rnd x y = NaN"

fun Math_sqrt :: "rounding \<Rightarrow> number \<Rightarrow> number" where
  "Math_sqrt rnd (Fin a) = (if a < 0 then NaN else rnd (sqrt a))"
| "Math_sqrt rnd PInf = PInf"
| "Math_sqrt rnd x = NaN"

fun Math_abs :: "number \<Rightarrow> number" where
  "Math_abs NaN = NaN"
| "Math_abs NInf = PInf"
| "Math_abs PInf = PInf"
| "Math_abs (Fin a) = Fin \<bar>a\<bar>"

definition Math_min :: "number \<Rightarrow> number \<Rightarrow> number" where
  "Math_min x y = (if isNaN x \<or> isNaN y then NaN else if lt y x then y else x)"


section \<open>The bracketing search\<close>

text \<open>
  The objective function is a callback \<open>f\<close>, taken deterministic. Every function below
  also returns \<open>calls\<close>, the arguments of its calls of \<open>f\<close> in the order they are made.

  \<^verbatim>\<open>bracketMinimum\<close> walks from \<open>x0\<close> in steps of \<open>dx\<close>. Its \<^verbatim>\<open>while\<close> loop may run
  forever, so the loop is a partial function and \<open>None\<close> stands for a call that
  does not return. \<open>bracket_guard\<close> is the loop's test; the variable \<^verbatim>\<open>bounded\<close> is
  undefined (false) before the first pass.
\<close>

definition bracket_guard :: "bool \<Rightarrow> number \<Rightarrow> bool" where
  "bracket_guard bounded dx = (\<not> bounded \<and> isFinite dx \<and> \<not> isNaN dx)"

partial_function (option) bracket_loop ::
  "rounding \<Rightarrow> (number \<Rightarrow> number) \<Rightarrow> number \<Rightarrow> number \<Rightarrow>
   number \<Rightarrow> number \<Rightarrow> number \<Rightarrow> bool \<Rightarrow> number list \<Rightarrow> (number \<times> number list) option"
where
  "bracket_loop rnd f dx fL xU fU fMin bounded calls =
     (if bracket_guard bounded dx then
        (let advance = le fU fMin;
             fMin1 = (if advance then fU else fMin);
             xU1 = (if advance then add rnd xU dx else xU);
             fU1 = (if advance then f xU1 else fU);
             calls1 = (if advance then calls @ [xU1] else calls);
             bounded1 = \<not> advance;
             fMin2 = Math_min fMin1 fU1;
             bounded2 = (if seq fL fMin2 then True else bounded1)
         in bracket_loop rnd f dx fL xU1 fU1 fMin2 bounded2 calls1)
      else Some (xU, calls))"

definition bracketMinimum ::
  "rounding \<Rightarrow> (number \<Rightarrow> number) \<Rightarrow> number \<Rightarrow> number \<Rightarrow>
   (number \<times> number \<times> number list) option"
where
  "bracketMinimum rnd f x0 dx =
     (let fx0 = f x0 in
      case bracket_loop rnd f dx fx0 x0 fx0 fx0 False [x0] of
        None \<Rightarrow> None
      | Some (xU, calls) \<Rightarrow>
          (let xL = sub rnd xU (mul rnd (Fin 2) dx);
               xL1 = (if seq x0 (add rnd xL dx) then x0 else xL)
           in Some (xL1, xU, calls)))"

section \<open>The golden-section search\<close>

definition PHI_RATIO :: "rounding \<Rightarrow> number" where
  "PHI_RATIO rnd = divide_num rnd (Fin 2) (add rnd (Fin 1) (Math_sqrt rnd (Fin 5)))"

text \<open>
  The status record is optional: \<open>None\<close> is a call without one. The counter
  \<^verbatim>\<open>iteration\<close> is a natural number; it is compared with \<^verbatim>\<open>maxIterations\<close>, which is
  any number. The loop's test increments the counter before it compares, also on the
  pass that leaves the loop.
\<close>

record status =
  iterations :: nat
  argmin :: number
  minimum :: number
  converged :: bool

partial_function (option) golden_loop ::
  "rounding \<Rightarrow> (number \<Rightarrow> number) \<Rightarrow> number \<Rightarrow> number \<Rightarrow> nat \<Rightarrow>
   number \<Rightarrow> number \<Rightarrow> number \<Rightarrow> number \<Rightarrow> number \<Rightarrow> number \<Rightarrow> number list \<Rightarrow>
   (nat \<times> number \<times> number \<times> number \<times> number \<times> number list) option"
where
  "golden_loop rnd f tol maxIterations iteration xL xU x1 x2 f1 f2 calls =
     (let iteration1 = iteration + 1 in
      if lt (Fin (real iteration1)) maxIterations \<and> gt (Math_abs (sub rnd xU xL)) tol then
        (if gt f2 f1 then
           (let xU1 = x2;
                x1a = sub rnd xU1 (mul rnd (PHI_RATIO rnd) (sub rnd xU1 xL));
                f1a = f x1a
            in golden_loop rnd f tol maxIterations iteration1 xL xU1 x1a x1 f1a f1
                 (calls @ [x1a]))
         else
           (let xL1 = x1;
                x2a = add rnd xL1 (mul rnd (PHI_RATIO rnd) (sub rnd xU xL1));
                f2a = f x2a
            in golden_loop rnd f tol maxIterations iteration1 xL1 xU x2 x2a f2 f2a
                 (calls @ [x2a])))
      else Some (iteration1, xL, xU, f1, f2, calls))"

text \<open>
  \<open>golden_finish\<close> is the part of \<^verbatim>\<open>goldenSectionMinimize\<close> after its loop, from the
  values the loop leaves: the counter, the two ends and the values at the two probes.
  \<open>f10\<close> and \<open>f20\<close> are the values at the two ends the search started with.
\<close>

definition golden_finish ::
  "rounding \<Rightarrow> number \<Rightarrow> number \<Rightarrow> number \<Rightarrow> number \<Rightarrow> number \<Rightarrow> status option \<Rightarrow>
   nat \<times> number \<times> number \<times> number \<times> number \<times> number list \<Rightarrow>
   number \<times> status option \<times> number list"
where
  "golden_finish rnd f10 f20 xL0 xU0 maxIterations st r =
     (case r of (iteration, xL, xU, f1, f2, calls) \<Rightarrow>
        (let xF = mul rnd (Fin (1/2)) (add rnd xU xL);
             fF = mul rnd (Fin (1/2)) (add rnd f1 f2);
             st1 = map_option (\<lambda>s. s\<lparr>iterations := iteration, argmin := xF,
                                       minimum := fF, converged := True\<rparr>) st
         in if isNaN f2 \<or> isNaN f1 \<or> seq (Fin (real iteration)) maxIterations then
              (NaN, map_option (\<lambda>s. s\<lparr>converged := False\<rparr>) st1, calls)
            else if lt f10 fF then (xL0, st1, calls)
            else if lt f20 fF then (xU0, st1, calls)
            else (xF, st1, calls)))"

definition goldenSectionMinimize ::
  "rounding \<Rightarrow> (number \<Rightarrow> number) \<Rightarrow> number \<Rightarrow> number \<Rightarrow> number \<Rightarrow> number \<Rightarrow>
   status option \<Rightarrow> (number \<times> status option \<times> number list) option"
where
  "goldenSectionMinimize rnd f xL xU tol maxIterations st =
     (let x1 = sub rnd xU (mul rnd (PHI_RATIO rnd) (sub rnd xU xL));
          x2 = add rnd xL (mul rnd (PHI_RATIO rnd) (sub rnd xU xL));
          f1 = f x1;
          f2 = f x2;
          f10 = f xL;
          f20 = f xU;
          xL0 = xL;
          xU0 = xU
      in case golden_loop rnd f tol maxIterations 0 xL xU x1 x2 f1 f2 [x1, x2, xL, xU] of
        None \<Rightarrow> None
      | Some r \<Rightarrow> Some (golden_finish rnd f10 f20 xL0 xU0 maxIterations st r))"

section \<open>The entry point\<close>

text \<open>
  An option of the configuration that is \<^verbatim>\<open>undefined\<close> is \<open>None\<close>, and so is a
  missing configuration. The literal \<^verbatim>\<open>1e-8\<close> is the number of the format nearest to it.
\<close>

record options =
  tolerance :: "number option"
  initialIncrement :: "number option"
  lowerBound :: "number option"
  upperBound :: "number option"
  maxIterations :: "number option"

definition no_options :: options where
  "no_options = \<lparr>tolerance = None, initialIncrement = None, lowerBound = None,
                  upperBound = None, maxIterations = None\<rparr>"

definition initial_status :: "status \<Rightarrow> status" where
  "initial_status s =
     s\<lparr>iterations := 0, argmin := NaN, minimum := PInf, converged := False\<rparr>"

definition minimizeSearch ::
  "rounding \<Rightarrow> (number \<Rightarrow> number) \<Rightarrow> options option \<Rightarrow> status option \<Rightarrow>
   (number \<times> status option \<times> number list) option"
where
  "minimizeSearch rnd f opts st =
     (let options = (case opts of None \<Rightarrow> no_options | Some o1 \<Rightarrow> o1);
          tolerance = (case tolerance options of None \<Rightarrow> rnd (1 / 10 ^ 8) | Some v \<Rightarrow> v);
          dx = (case initialIncrement options of None \<Rightarrow> Fin 1 | Some v \<Rightarrow> v);
          xMin = (case lowerBound options of None \<Rightarrow> NInf | Some v \<Rightarrow> v);
          xMax = (case upperBound options of None \<Rightarrow> PInf | Some v \<Rightarrow> v);
          maxIterations = (case maxIterations options of None \<Rightarrow> Fin 100 | Some v \<Rightarrow> v);
          st0 = map_option initial_status st
      in if isFinite xMax \<and> isFinite xMin then
           goldenSectionMinimize rnd f xMin xMax tolerance maxIterations st0
         else
           (let x0 = (if gt xMin NInf then xMin else Fin 0) in
            case bracketMinimum rnd f x0 dx of
              None \<Rightarrow> None
            | Some (xL, xU, calls) \<Rightarrow>
                (case goldenSectionMinimize rnd f xL xU tolerance maxIterations st0 of
                   None \<Rightarrow> None
                 | Some (x, st1, calls1) \<Rightarrow> Some (x, st1, calls @ calls1))))"

section \<open>Objective functions of the examples\<close>

text \<open>\<^verbatim>\<open>x => (x - c) * (x - c)\<close>, \<^verbatim>\<open>x => 0\<close> and \<^verbatim>\<open>x => -x\<close>.\<close>

definition quad :: "rounding \<Rightarrow> real \<Rightarrow> number \<Rightarrow> number" where
  "quad rnd c x = (let d = sub rnd x (Fin c) in mul rnd d d)"

definition const0 :: "number \<Rightarrow> number" where
  "const0 x = Fin 0"

definition descending :: "number \<Rightarrow> number" where
  "descending x = neg x"

text \<open>\<^verbatim>\<open>x => x < 0 ? 1 : 0\<close>, which never increases.\<close>

definition step_down :: "number \<Rightarrow> number" where
  "step_down x = (if lt x (Fin 0) then Fin 1 else Fin 0)"

text \<open>
  \<^verbatim>\<open>x => Math.exp(1024 * x - 704) - (1024 * x - 704)\<close>, with its own arithmetic taken
  exact: a strictly convex function whose minimum is at \<open>11/16\<close>.
\<close>

definition steep_real :: "real \<Rightarrow> real" where
  "steep_real x = exp (1024 * x - 704) - (1024 * x - 704)"

fun steep :: "number \<Rightarrow> number" where
  "steep (Fin x) = Fin (steep_real x)"
| "steep NInf = PInf"
| "steep x = NaN"

section \<open>Vocabulary of the statements\<close>

text \<open>
  \<open>sample rnd x0 dx k\<close> is the point the bracketing loop reaches after \<open>k\<close> advances.
  \<open>probe1\<close> and \<open>probe2\<close> are the two probes of an interval and \<open>half_sum\<close> the
  half of a sum, as \<^verbatim>\<open>goldenSectionMinimize\<close> computes them; \<open>golden_start\<close> is
  its loop, run from the state the function prepares. \<open>resolved\<close> gives the options
  \<^verbatim>\<open>_minimizeSearch\<close> works with: tolerance, initial increment, lower bound, upper bound
  and iteration cap. \<open>phi\<close> is the golden ratio's inverse, and \<open>in_interval a b\<close> holds
  of the finite numbers from \<open>a\<close> to \<open>b\<close>.
\<close>

definition phi :: real where
  "phi = 2 / (1 + sqrt 5)"

fun sample :: "rounding \<Rightarrow> number \<Rightarrow> number \<Rightarrow> nat \<Rightarrow> number" where
  "sample rnd x0 dx 0 = x0"
| "sample rnd x0 dx (Suc k) = add rnd (sample rnd x0 dx k) dx"

definition probe1 :: "rounding \<Rightarrow> number \<Rightarrow> number \<Rightarrow> number" where
  "probe1 rnd xL xU = sub rnd xU (mul rnd (PHI_RATIO rnd) (sub rnd xU xL))"

definition probe2 :: "rounding \<Rightarrow> number \<Rightarrow> number \<Rightarrow> number" where
  "probe2 rnd xL xU = add rnd xL (mul rnd (PHI_RATIO rnd) (sub rnd xU xL))"

definition half_sum :: "rounding \<Rightarrow> number \<Rightarrow> number \<Rightarrow> number" where
  "half_sum rnd a b = mul rnd (Fin (1/2)) (add rnd a b)"

definition golden_start ::
  "rounding \<Rightarrow> (number \<Rightarrow> number) \<Rightarrow> number \<Rightarrow> number \<Rightarrow> number \<Rightarrow> number \<Rightarrow>
   (nat \<times> number \<times> number \<times> number \<times> number \<times> number list) option"
where
  "golden_start rnd f tol maxIt xL xU =
     golden_loop rnd f tol maxIt 0 xL xU (probe1 rnd xL xU) (probe2 rnd xL xU)
       (f (probe1 rnd xL xU)) (f (probe2 rnd xL xU))
       [probe1 rnd xL xU, probe2 rnd xL xU, xL, xU]"

definition resolved ::
  "rounding \<Rightarrow> options option \<Rightarrow> number \<times> number \<times> number \<times> number \<times> number"
where
  "resolved rnd opts =
     (let options = (case opts of None \<Rightarrow> no_options | Some o1 \<Rightarrow> o1)
      in ((case tolerance options of None \<Rightarrow> rnd (1 / 10 ^ 8) | Some v \<Rightarrow> v),
          (case initialIncrement options of None \<Rightarrow> Fin 1 | Some v \<Rightarrow> v),
          (case lowerBound options of None \<Rightarrow> NInf | Some v \<Rightarrow> v),
          (case upperBound options of None \<Rightarrow> PInf | Some v \<Rightarrow> v),
          (case maxIterations options of None \<Rightarrow> Fin 100 | Some v \<Rightarrow> v)))"

fun in_interval :: "real \<Rightarrow> real \<Rightarrow> number \<Rightarrow> bool" where
  "in_interval a b (Fin x) = (a \<le> x \<and> x \<le> b)"
| "in_interval a b c = False"

text \<open>
  \<open>tells_side f a b xs d\<close>: on \<open>[a, b]\<close> the values of \<open>f\<close> are never NaN, and the
  comparison the refiner makes between two of them, taken at points more than \<open>d\<close>
  apart, tells on which side \<open>xs\<close> lies: the value at the right point is greater only
  if \<open>xs\<close> is not to the right of it, and otherwise \<open>xs\<close> is not to the left of the
  left point. \<open>near_golden\<close> is the state of the refiner's loop after \<open>n\<close> passes
  under rounding: the interval \<open>[l, uu]\<close> holds \<open>xs\<close>, the probes \<open>p\<close> and \<open>q\<close>
  lie within \<open>(n + 2) F\<close> of the golden sections of the interval, and the width is at
  most \<open>phi ^ n * (b - a) + 3 n F\<close>.
\<close>

definition tells_side :: "(number \<Rightarrow> number) \<Rightarrow> real \<Rightarrow> real \<Rightarrow> real \<Rightarrow> real \<Rightarrow> bool" where
  "tells_side f a b xs d =
     ((\<forall>x. a \<le> x \<and> x \<le> b \<longrightarrow> \<not> isNaN (f (Fin x))) \<and>
      (\<forall>p q. a \<le> p \<and> p + d < q \<and> q \<le> b \<longrightarrow>
         (if gt (f (Fin q)) (f (Fin p)) then xs \<le> q else p \<le> xs)))"

definition near_golden ::
  "real \<Rightarrow> real \<Rightarrow> real \<Rightarrow> real \<Rightarrow> nat \<Rightarrow> nat \<Rightarrow> real \<Rightarrow> real \<Rightarrow> real \<Rightarrow> real \<Rightarrow> bool"
where
  "near_golden a b xs F N n l uu p q =
     (a \<le> l \<and> l \<le> xs \<and> xs \<le> uu \<and> uu \<le> b \<and> a \<le> p \<and> p \<le> b \<and> a \<le> q \<and> q \<le> b \<and>
      \<bar>p - (uu - phi * (uu - l))\<bar> + \<bar>q - (l + phi * (uu - l))\<bar> \<le> real (n + 2) * F \<and>
      uu - l \<le> phi ^ n * (b - a) + 3 * (real n * F) \<and> n \<le> N)"

definition blank_status :: status where
  "blank_status = \<lparr>iterations = 0, argmin = Fin 0, minimum = Fin 0, converged = False\<rparr>"

section \<open>The rules as the specification words them\<close>

text \<open>
  The specification snaps the lower edge \<open>xL = xU - 2 dx\<close> to \<open>x0\<close> when \<open>xL\<close>
  coincides with \<open>x0 + dx\<close>.
\<close>

definition spec_lower_edge :: "rounding \<Rightarrow> number \<Rightarrow> number \<Rightarrow> number \<Rightarrow> number" where
  "spec_lower_edge rnd x0 dx xU =
     (let xL = sub rnd xU (mul rnd (Fin 2) dx)
      in if seq xL (add rnd x0 dx) then x0 else xL)"

text \<open>
  The specification starts the bracketing search at the lower bound if it is finite and
  greater than minus infinity, and at \<open>0\<close> otherwise.
\<close>

definition spec_start :: "number \<Rightarrow> number" where
  "spec_start xMin = (if isFinite xMin \<and> gt xMin NInf then xMin else Fin 0)"

definition spec_minimizeSearch ::
  "rounding \<Rightarrow> (number \<Rightarrow> number) \<Rightarrow> options option \<Rightarrow> status option \<Rightarrow>
   (number \<times> status option \<times> number list) option"
where
  "spec_minimizeSearch rnd f opts st =
     (case resolved rnd opts of (tol, dx, xMin, xMax, maxIt) \<Rightarrow>
        if isFinite xMin \<and> isFinite xMax then
          goldenSectionMinimize rnd f xMin xMax tol maxIt (map_option initial_status st)
        else
          (case bracketMinimum rnd f (spec_start xMin) dx of
             None \<Rightarrow> None
           | Some (xL, xU, calls) \<Rightarrow>
               (case goldenSectionMinimize rnd f xL xU tol maxIt (map_option initial_status st) of
                  None \<Rightarrow> None
                | Some (x, st1, calls1) \<Rightarrow> Some (x, st1, calls @ calls1))))"


section \<open>Comparisons and evaluation\<close>

lemma in_interval_iff: "in_interval a b c = (\<exists>x. c = Fin x \<and> a \<le> x \<and> x \<le> b)"
  by (cases c) simp_all

lemma le_Fin [simp]: "le (Fin a) (Fin b) = (a \<le> b)"
  by (auto simp: le_def)

lemma gt_Fin [simp]: "gt (Fin a) (Fin b) = (b < a)"
  by (simp add: gt_def)

lemma le_refl_iff [simp]: "le x x = (\<not> isNaN x)"
  by (cases x) (simp_all add: le_def)

lemma seq_refl_iff [simp]: "seq x x = (\<not> isNaN x)"
  by (cases x) simp_all

lemma Math_min_same [simp]: "Math_min x x = x"
  by (cases x) (simp_all add: Math_min_def)

lemma exact_apply [simp]: "exact x = Fin x"
  by (simp add: exact_def)

lemma sub_Fin [simp]: "sub rnd (Fin a) (Fin b) = rnd (a - b)"
  by (simp add: sub_def)

lemma add_NaN_right [simp]: "add rnd x NaN = NaN"
  by (cases x) simp_all

lemma mul_NaN_right [simp]: "mul rnd x NaN = NaN"
  by (cases x) simp_all

lemma sub_NaN [simp]: "sub rnd x NaN = NaN" "sub rnd NaN y = NaN"
  by (simp_all add: sub_def)

lemma lt_NaN_right [simp]: "lt x NaN = False"
  by (cases x) simp_all

lemma gt_NaN [simp]: "gt NaN y = False" "gt x NaN = False"
  by (simp_all add: gt_def)

lemma le_Math_min [simp]: "le y (Math_min x y) = le y x"
  by (cases x; cases y) (auto simp: Math_min_def le_def)

lemma lt_Fin_mono: "\<not> lt (Fin (real n)) m \<Longrightarrow> n \<le> k \<Longrightarrow> \<not> lt (Fin (real k)) m"
  by (cases m) auto

lemma sqrt5_bounds: "2 < sqrt 5" "sqrt 5 < 3"
  by (simp_all add: real_less_rsqrt real_less_lsqrt)

lemma phi_pos: "0 < phi"
  unfolding phi_def using sqrt5_bounds by simp

lemma PHI_RATIO_exact [simp]: "PHI_RATIO exact = Fin phi"
  using sqrt5_bounds by (simp add: PHI_RATIO_def exact_def phi_def)

lemma phi_sq: "phi * phi = 1 - phi"
proof -
  define s where "s = sqrt 5"
  have ss: "s * s = 5" by (simp add: s_def)
  have ne: "1 + s \<noteq> 0" using sqrt5_bounds by (simp add: s_def)
  have p: "phi * (1 + s) = 2" using ne by (simp add: phi_def s_def field_simps)
  have "(phi * (1 + s)) * (phi * (1 + s)) = 4" unfolding p by simp
  then have l: "phi * phi * ((1 + s) * (1 + s)) = 4" by (simp add: mult_ac)
  have "(1 - phi) * ((1 + s) * (1 + s)) = (1 + s) * (1 + s) - (phi * (1 + s)) * (1 + s)"
    by (simp add: algebra_simps)
  also have "\<dots> = (1 + s) * (1 + s) - 2 * (1 + s)" unfolding p ..
  also have "\<dots> = s * s - 1" by (simp add: algebra_simps)
  also have "\<dots> = 4" using ss by simp
  finally have "phi * phi * ((1 + s) * (1 + s)) = (1 - phi) * ((1 + s) * (1 + s))"
    using l by simp
  then show ?thesis using ne by simp
qed

lemma phi_bounds: "1 / 2 < phi" "phi < 62 / 100"
proof -
  have "223 / 100 < sqrt 5" by (rule real_less_rsqrt) (simp add: power2_eq_square)
  then show "phi < 62 / 100"
    unfolding phi_def using sqrt5_bounds by (simp add: field_simps)
  show "1 / 2 < phi"
    unfolding phi_def using sqrt5_bounds by (simp add: field_simps)
qed

lemma phi_lt_1: "phi < 1"
  using phi_bounds by simp

lemma phi_neq_0 [simp]: "phi \<noteq> 0"
  using phi_pos by simp

lemmas eval_simps = bracketMinimum_def bracket_loop.simps bracket_guard_def quad_def
  Math_min_def Let_def

section \<open>Rounding\<close>

text \<open>
  The rounding of binary64 is accurate in the sense of the standard model, with
  \<open>u = 2\<^sup>-\<^sup>5\<^sup>3\<close> and \<open>h = 2\<^sup>-\<^sup>1\<^sup>0\<^sup>7\<^sup>5\<close>, on every range up to \<open>2\<^sup>1\<^sup>0\<^sup>2\<^sup>3\<close>: the
  error is at most half the spacing of the format, which is at most \<open>2\<^sup>-\<^sup>5\<^sup>2\<close> times
  the magnitude in the normal range and \<open>2\<^sup>-\<^sup>1\<^sup>0\<^sup>7\<^sup>4\<close> below it.
\<close>

lemma accurateD:
  assumes "accurate rnd R u h" "\<bar>x\<bar> \<le> R"
  obtains y where "rnd x = Fin y" "\<bar>y - x\<bar> \<le> u * \<bar>x\<bar> + h"
  using assms unfolding accurate_def by blast

lemma accurate_absolute:
  assumes "accurate rnd R u h" "0 \<le> u" "\<bar>x\<bar> \<le> R"
  shows "\<exists>y. rnd x = Fin y \<and> \<bar>y - x\<bar> \<le> u * R + h"
proof -
  from assms(1,3) obtain y where y: "rnd x = Fin y" "\<bar>y - x\<bar> \<le> u * \<bar>x\<bar> + h"
    unfolding accurate_def by blast
  have "u * \<bar>x\<bar> \<le> u * R" using assms(2,3) by (rule mult_left_mono [rotated])
  with y show ?thesis by (intro exI [of _ y]) simp
qed

lemma nearest_even_half: "\<bar>of_int (nearest_even z) - z\<bar> \<le> 1 / 2"
proof -
  have "of_int \<lfloor>z\<rfloor> \<le> z" "z < of_int \<lfloor>z\<rfloor> + 1" by linarith+
  then show ?thesis
    by (auto simp: nearest_even_def Let_def abs_le_iff)
qed

lemma nearest_even_of_int: "nearest_even (of_int n) = n"
  by (simp add: nearest_even_def)

lemma binary64_accurate:
  assumes R: "R \<le> 2 ^ 1023"
  shows "accurate binary64 R (1 / 2 ^ 53) (1 / 2 ^ 1075)"
  unfolding accurate_def
proof (intro allI impI)
  fix x :: real
  assume xR: "\<bar>x\<bar> \<le> R"
  show "\<exists>y. binary64 x = Fin y \<and> \<bar>y - x\<bar> \<le> 1 / 2 ^ 53 * \<bar>x\<bar> + 1 / 2 ^ 1075"
  proof (cases "x = 0")
    case True
    then show ?thesis by (simp add: binary64_def)
  next
    case False
    define e where "e = max \<lfloor>log 2 \<bar>x\<bar>\<rfloor> (- 1022)"
    define q where "q = (2::real) powr of_int (e - 52)"
    define y where "y = of_int (nearest_even (x / q)) * q"
    have q0: "0 < q" by (simp add: q_def)
    have ax: "0 < \<bar>x\<bar>" using False by simp
    define d where "d = of_int (nearest_even (x / q)) - x / q"
    have d: "\<bar>d\<bar> \<le> 1 / 2" unfolding d_def by (rule nearest_even_half)
    have eq: "y - x = d * q" using q0 by (simp add: d_def y_def algebra_simps)
    have "\<bar>y - x\<bar> = \<bar>d\<bar> * q" unfolding eq using q0 by (simp add: abs_mult)
    moreover have "\<bar>d\<bar> * q \<le> 1 / 2 * q" using d q0 by (intro mult_right_mono) simp_all
    ultimately have err: "\<bar>y - x\<bar> \<le> q / 2" by simp
    have qb: "q \<le> 1 / 2 ^ 52 * \<bar>x\<bar> + 1 / 2 ^ 1074"
    proof (cases "- 1022 \<le> \<lfloor>log 2 \<bar>x\<bar>\<rfloor>")
      case True
      then have e: "e = \<lfloor>log 2 \<bar>x\<bar>\<rfloor>" by (simp add: e_def)
      have "2 powr of_int \<lfloor>log 2 \<bar>x\<bar>\<rfloor> \<le> 2 powr log 2 \<bar>x\<bar>"
        by (intro powr_mono) simp_all
      also have "\<dots> = \<bar>x\<bar>" using ax by simp
      finally have "2 powr of_int e \<le> \<bar>x\<bar>" by (simp add: e)
      moreover have "q = 2 powr of_int e / 2 ^ 52"
        by (simp add: q_def powr_diff)
      ultimately have "q \<le> \<bar>x\<bar> / 2 ^ 52" by (simp add: divide_right_mono)
      then show ?thesis by simp
    next
      case False
      then have e: "e = - 1022" by (simp add: e_def)
      have "q = 1 / 2 ^ 1074"
        unfolding q_def e by (simp add: powr_minus_divide)
      then show ?thesis by simp
    qed
    have e1: "\<bar>y - x\<bar> \<le> 1 / 2 ^ 53 * \<bar>x\<bar> + 1 / 2 ^ 1075"
      using err qb by simp
    have "1 / 2 ^ 53 * \<bar>x\<bar> \<le> 1 / 2 ^ 53 * 2 ^ 1023"
      using xR R by (intro mult_left_mono) simp_all
    then have "\<bar>y\<bar> < 2 ^ 1024" using e1 xR R by simp
    moreover have "binary64 x =
        (if 2 ^ 1024 \<le> \<bar>y\<bar> then (if 0 < x then PInf else NInf) else Fin y)"
      unfolding y_def q_def e_def binary64_def Let_def using False by (simp only: if_False)
    ultimately have "binary64 x = Fin y" by simp
    with e1 show ?thesis by blast
  qed
qed

lemma binary64_two_power:
  assumes n: "1024 \<le> n"
  shows "binary64 (2 ^ n) = PInf"
proof -
  define x :: real where "x = 2 ^ n"
  have x0: "0 < x" "x \<noteq> 0" "\<bar>x\<bar> = x" by (simp_all add: x_def)
  have xp: "x = 2 powr real n" by (simp add: x_def powr_realpow)
  have "log 2 x = real n" by (simp add: xp)
  then have l: "\<lfloor>log 2 \<bar>x\<bar>\<rfloor> = int n" by (simp add: x0)
  have e: "max (int n) (- 1022) = int n" by simp
  define q :: real where "q = 2 powr of_int (int n - 52)"
  have q: "q = 2 powr real n / 2 ^ 52" by (simp add: q_def powr_diff)
  have q0: "0 < q" by (simp add: q_def)
  have "x / q = 2 ^ 52" unfolding q xp by simp
  then have d: "x / q = of_int (2 ^ 52)" by simp
  have m: "of_int (2 ^ 52) * q = x" unfolding q xp by simp
  have "(2 ^ 1024 :: real) \<le> 2 ^ n"
    using n by (intro power_increasing) simp_all
  then have big: "(2 ^ 1024 :: real) \<le> \<bar>x\<bar>"
    unfolding x0(3) by (simp only: x_def)
  have "binary64 x =
      (if 2 ^ 1024 \<le> \<bar>of_int (nearest_even (x / q)) * q\<bar>
       then (if 0 < x then PInf else NInf) else Fin (of_int (nearest_even (x / q)) * q))"
    unfolding binary64_def Let_def l e q_def using x0(2) by (simp only: if_False)
  also have "\<dots> = PInf"
    unfolding d nearest_even_of_int m using big x0(1) by (simp only: if_True)
  finally show ?thesis by (simp only: x_def)
qed

lemma binary64_overflow: "binary64 (2 * 2 ^ 1023) = PInf"
proof -
  have "(2 * 2 ^ 1023 :: real) = 2 ^ 1024" by simp
  then show ?thesis using binary64_two_power [of 1024] by simp
qed

lemma binary64_zero: "binary64 0 = Fin 0"
  by (simp add: binary64_def)

text \<open>
  In an accurate arithmetic the constant \<^verbatim>\<open>PHI_RATIO\<close> is within \<open>4 u\<close> of the golden
  ratio's inverse.
\<close>

lemma sqrt5_tight: "223 / 100 < sqrt 5" "sqrt 5 < 23 / 10"
proof -
  show "223 / 100 < sqrt 5" by (rule real_less_rsqrt) (simp add: power2_eq_square)
  show "sqrt 5 < 23 / 10" by (rule real_less_lsqrt) (simp_all add: power2_eq_square)
qed

lemma PHI_RATIO_accurate:
  assumes acc: "accurate rnd R u h" and h: "0 \<le> h" "h \<le> u" and u: "u \<le> 1 / 100"
    and R: "4 \<le> R"
  shows "\<exists>P. PHI_RATIO rnd = Fin P \<and> \<bar>P - phi\<bar> \<le> 4 * u"
proof -
  define s where "s = sqrt 5"
  have s: "223 / 100 < s" "s < 23 / 10" using sqrt5_tight by (simp_all add: s_def)
  have u0: "0 \<le> u" using h by simp
  have "\<bar>s\<bar> \<le> R" using s R by simp
  from accurateD [OF acc this] obtain s' where s': "rnd s = Fin s'" "\<bar>s' - s\<bar> \<le> u * \<bar>s\<bar> + h"
    by blast
  have "u * \<bar>s\<bar> \<le> u * (23 / 10)" using s u0 by (intro mult_left_mono) simp_all
  with s'(2) h have e1: "\<bar>s' - s\<bar> \<le> 33 / 10 * u" by linarith
  have "\<bar>1 + s'\<bar> \<le> 34 / 10" using e1 s u by linarith
  then have "\<bar>1 + s'\<bar> \<le> R" using R by simp
  from accurateD [OF acc this] obtain d where d: "rnd (1 + s') = Fin d"
      "\<bar>d - (1 + s')\<bar> \<le> u * \<bar>1 + s'\<bar> + h"
    by blast
  have "u * \<bar>1 + s'\<bar> \<le> u * (34 / 10)"
    using \<open>\<bar>1 + s'\<bar> \<le> 34 / 10\<close> u0 by (intro mult_left_mono) simp_all
  with d(2) h have e2: "\<bar>d - (1 + s')\<bar> \<le> 44 / 10 * u" by linarith
  have e12: "\<bar>d - (1 + s)\<bar> \<le> 8 * u" using e1 e2 by linarith
  have d3: "3 \<le> d" using e12 s u by linarith
  have dn: "d \<noteq> 0" "0 < d" using d3 by simp_all
  have "\<bar>2 / d\<bar> \<le> 2 / 3" using d3 by (simp add: field_simps)
  then have "\<bar>2 / d\<bar> \<le> R" using R by simp
  from accurateD [OF acc this] obtain P where P: "rnd (2 / d) = Fin P"
      "\<bar>P - 2 / d\<bar> \<le> u * \<bar>2 / d\<bar> + h"
    by blast
  have "u * \<bar>2 / d\<bar> \<le> u * (2 / 3)"
    using \<open>\<bar>2 / d\<bar> \<le> 2 / 3\<close> u0 by (intro mult_left_mono) simp_all
  with P(2) h have e3: "\<bar>P - 2 / d\<bar> \<le> 2 * u" using u0 by linarith
  have c9: "3 * 3 \<le> d * (1 + s)" using d3 s by (intro mult_mono) simp_all
  have c0: "0 < d * (1 + s)" using c9 by simp
  define x where "x = (1 + s) - d"
  define c where "c = d * (1 + s)"
  have x8: "\<bar>x\<bar> \<le> 8 * u" using e12 unfolding x_def by linarith
  have "2 / d - 2 / (1 + s) = (2 * x) / c"
    unfolding x_def c_def using dn s by (simp add: field_simps)
  then have "\<bar>2 / d - 2 / (1 + s)\<bar> = (2 * \<bar>x\<bar>) / c"
    using c0 by (simp add: c_def [symmetric] abs_mult)
  also have "\<dots> \<le> (16 * u) / (3 * 3)"
    using x8 c9 u0 unfolding c_def by (intro frac_le) simp_all
  finally have e4: "\<bar>2 / d - 2 / (1 + s)\<bar> \<le> 2 * u" using u0 by simp
  have "phi = 2 / (1 + s)" by (simp add: phi_def s_def)
  with e3 e4 have "\<bar>P - phi\<bar> \<le> 4 * u" by linarith
  moreover have "PHI_RATIO rnd = Fin P"
    using dn by (simp add: PHI_RATIO_def s_def [symmetric] s'(1) d(1) P(1))
  ultimately show ?thesis by blast
qed

lemma PHI_RATIO_binary64: "\<exists>P. PHI_RATIO binary64 = Fin P \<and> 0 < P"
proof -
  have a: "accurate binary64 4 (1 / 2 ^ 53) (1 / 2 ^ 1075)"
    by (rule binary64_accurate) simp
  have "\<exists>P. PHI_RATIO binary64 = Fin P \<and> \<bar>P - phi\<bar> \<le> 4 * (1 / 2 ^ 53)"
    by (rule PHI_RATIO_accurate [OF a]) simp_all
  then obtain P where P: "PHI_RATIO binary64 = Fin P" "\<bar>P - phi\<bar> \<le> 4 * (1 / 2 ^ 53)" by blast
  have "4 * (1 / 2 ^ 53) < (1 / 2 :: real)" by simp
  with P(2) phi_bounds(1) have "0 < P" by linarith
  with P(1) show ?thesis by blast
qed

section \<open>The interval returned by the bracketing search\<close>

lemma bracketMinimum_Some:
  "bracketMinimum rnd f x0 dx = Some (xL, xU, calls) \<longleftrightarrow>
     bracket_loop rnd f dx (f x0) x0 (f x0) (f x0) False [x0] = Some (xU, calls) \<and>
     xL = (if seq x0 (add rnd (sub rnd xU (mul rnd (Fin 2) dx)) dx) then x0
           else sub rnd xU (mul rnd (Fin 2) dx))"
  by (auto simp: bracketMinimum_def Let_def split: option.splits)

lemma bracket_quad_0_eval:
  "bracketMinimum exact (quad exact 0) (Fin 0) (Fin 1) = Some (Fin 0, Fin 1, [Fin 0, Fin 1])"
  by (simp add: eval_simps)

lemma bracket_quad_2_eval:
  "bracketMinimum exact (quad exact 2) (Fin 0) (Fin 1) =
     Some (Fin 1, Fin 3, [Fin 0, Fin 1, Fin 2, Fin 3])"
  by (simp add: eval_simps)

lemma bracket_quad_3_eval:
  "bracketMinimum exact (quad exact 3) (Fin 0) (Fin 1) =
     Some (Fin 2, Fin 4, [Fin 0, Fin 1, Fin 2, Fin 3, Fin 4])"
  by (simp add: eval_simps)

text \<open>
  C6, as amended. The lower edge is \<open>xU - 2 dx\<close>, and it is replaced by \<open>x0\<close> when
  \<open>x0\<close> is equal to that edge plus \<open>dx\<close>, which is the test
  \<^verbatim>\<open>x0 === (xL + dx)\<close> of the code. This holds in every rounding.
\<close>

theorem lower_edge_snaps_back_to_start:
  assumes "bracketMinimum rnd f x0 dx = Some (xL, xU, calls)"
  shows "xL = (if seq x0 (add rnd (sub rnd xU (mul rnd (Fin 2) dx)) dx) then x0
               else sub rnd xU (mul rnd (Fin 2) dx))"
  using assms by (simp add: bracketMinimum_Some)

theorem lower_edge_snaps_back_to_start_witness:
  "bracketMinimum exact (quad exact 0) (Fin 0) (Fin 1) = Some (Fin 0, Fin 1, [Fin 0, Fin 1]) \<and>
   Fin 0 = (if seq (Fin 0) (add exact (sub exact (Fin 1) (mul exact (Fin 2) (Fin 1))) (Fin 1))
            then Fin 0 else sub exact (Fin 1) (mul exact (Fin 2) (Fin 1)))"
  using lower_edge_snaps_back_to_start [OF bracket_quad_0_eval] bracket_quad_0_eval
  by blast

text \<open>
  C6, as the claim words it, fails: for \<^verbatim>\<open>(x - 2) * (x - 2)\<close> from \<open>0\<close> in steps of
  \<open>1\<close> the loop stops at \<open>xU = 3\<close>, the edge \<open>3 - 2\<close> coincides with \<open>x0 + dx\<close>,
  and the code returns the edge \<open>1\<close>, not \<open>x0\<close>.
\<close>

theorem lower_edge_not_compared_with_start_plus_step:
  "bracketMinimum exact (quad exact 2) (Fin 0) (Fin 1) =
     Some (Fin 1, Fin 3, [Fin 0, Fin 1, Fin 2, Fin 3]) \<and>
   spec_lower_edge exact (Fin 0) (Fin 1) (Fin 3) = Fin 0"
  by (simp add: bracket_quad_2_eval) (simp add: spec_lower_edge_def exact_def sub_def)

subsection \<open>A step that is zero, NaN or infinite\<close>

lemma bracket_zero_step:
  assumes "rnd a = Fin a" and "rnd 0 = Fin 0"
  shows "bracketMinimum rnd f (Fin a) (Fin 0) =
        Some (Fin a, Fin a, if isNaN (f (Fin a)) then [Fin a] else [Fin a, Fin a])"
  using assms
  by (simp add: bracketMinimum_def bracket_loop.simps bracket_guard_def sub_def Let_def)

text \<open>
  C4, as amended. From a finite \<open>x0\<close>: with \<open>dx\<close> NaN or infinite the test of the loop
  fails at once, \<open>f\<close> is called at \<open>x0\<close> only, and the interval returned is
  \<open>(x0 - 2 dx, x0)\<close>, whose lower end is NaN or the infinity opposite to \<open>dx\<close>. With
  \<open>dx = 0\<close> (and \<open>x0\<close> and \<open>0\<close> numbers of the format) the test holds on entry, the
  loop makes one pass, which calls \<open>f\<close> at \<open>x0\<close> again unless \<open>f x0\<close> is NaN, and the
  interval returned is \<open>(x0, x0)\<close>. A result \<open>Some\<close> is a call that returns.
\<close>

theorem bracket_degenerate_step:
  "(\<not> bracket_guard False NaN \<and>
      bracketMinimum rnd f (Fin a) NaN = Some (NaN, Fin a, [Fin a])) \<and>
   (\<not> bracket_guard False PInf \<and>
      bracketMinimum rnd f (Fin a) PInf = Some (NInf, Fin a, [Fin a])) \<and>
   (\<not> bracket_guard False NInf \<and>
      bracketMinimum rnd f (Fin a) NInf = Some (PInf, Fin a, [Fin a])) \<and>
   (rnd a = Fin a \<and> rnd 0 = Fin 0 \<longrightarrow>
      bracket_guard False (Fin 0) \<and>
      bracketMinimum rnd f (Fin a) (Fin 0) =
        Some (Fin a, Fin a, if isNaN (f (Fin a)) then [Fin a] else [Fin a, Fin a]))"
proof -
  have "bracketMinimum rnd f (Fin a) NaN = Some (NaN, Fin a, [Fin a])"
    and "bracketMinimum rnd f (Fin a) PInf = Some (NInf, Fin a, [Fin a])"
    and "bracketMinimum rnd f (Fin a) NInf = Some (PInf, Fin a, [Fin a])"
    by (simp_all add: bracketMinimum_def bracket_loop.simps bracket_guard_def sub_def Let_def)
  then show ?thesis
    using bracket_zero_step [of rnd a f] by (simp add: bracket_guard_def)
qed

theorem bracket_degenerate_step_witness:
  "exact 0 = Fin 0 \<and> bracket_guard False (Fin 0) \<and>
   bracketMinimum exact (quad exact 3) (Fin 0) (Fin 0) = Some (Fin 0, Fin 0, [Fin 0, Fin 0])"
  using bracket_degenerate_step [of exact "quad exact 3" 0]
  by (simp add: exact_def quad_def sub_def)

text \<open>
  C4, as the claim words it, fails: with \<open>dx\<close> NaN the interval returned from \<open>x0 = 0\<close>
  has the lower end NaN, which is neither finite nor equal to \<open>x0\<close>.
\<close>

theorem bracket_nan_step_not_collapsed:
  "bracketMinimum exact (quad exact 3) (Fin 0) NaN = Some (NaN, Fin 0, [Fin 0]) \<and>
   \<not> isFinite NaN \<and> NaN \<noteq> Fin 0"
  by (simp add: bracketMinimum_def bracket_loop.simps bracket_guard_def sub_def Let_def)

subsection \<open>The order of the two ends\<close>

text \<open>Without rounding, the upper end is \<open>x0\<close> plus a whole number of steps.\<close>

lemma bracket_loop_exact_xU:
  assumes "bracket_loop rnd f dx fL xU fU fMin b calls = Some r"
  shows "rnd = exact \<longrightarrow> dx = Fin d \<longrightarrow> (\<exists>k::nat. xU = Fin (a + real k * d)) \<longrightarrow>
         (\<exists>k::nat. fst r = Fin (a + real k * d))"
proof (rule bracket_loop.raw_induct
    [where P = "\<lambda>rnd f dx fL xU fU fMin b calls r.
       rnd = exact \<longrightarrow> dx = Fin d \<longrightarrow> (\<exists>k::nat. xU = Fin (a + real k * d)) \<longrightarrow>
         (\<exists>k::nat. fst r = Fin (a + real k * d))", OF _ assms])
  fix loop rnd f dx fL xU fU fMin b calls r
  assume IH: "\<And>rnd f dx fL xU fU fMin b calls r.
       loop rnd f dx fL xU fU fMin b calls = Some r \<Longrightarrow>
       rnd = exact \<longrightarrow> dx = Fin d \<longrightarrow> (\<exists>k::nat. xU = Fin (a + real k * d)) \<longrightarrow>
         (\<exists>k::nat. fst r = Fin (a + real k * d))"
    and step: "(if bracket_guard b dx
      then let advance = le fU fMin; fMin1 = if advance then fU else fMin;
               xU1 = if advance then add rnd xU dx else xU;
               fU1 = if advance then f xU1 else fU;
               calls1 = if advance then calls @ [xU1] else calls;
               bounded1 = \<not> advance; fMin2 = Math_min fMin1 fU1;
               bounded2 = if seq fL fMin2 then True else bounded1
           in loop rnd f dx fL xU1 fU1 fMin2 bounded2 calls1
      else Some (xU, calls)) = Some r"
  show "rnd = exact \<longrightarrow> dx = Fin d \<longrightarrow> (\<exists>k::nat. xU = Fin (a + real k * d)) \<longrightarrow>
         (\<exists>k::nat. fst r = Fin (a + real k * d))"
  proof (intro impI)
    assume r: "rnd = exact" and dx: "dx = Fin d" and "\<exists>k::nat. xU = Fin (a + real k * d)"
    then obtain k :: nat where k: "xU = Fin (a + real k * d)" by blast
    show "\<exists>k::nat. fst r = Fin (a + real k * d)"
    proof (cases "bracket_guard b dx")
      case False
      with step k show ?thesis by auto
    next
      case True
      have next_xU: "\<exists>k'::nat. (if le fU fMin then add rnd xU dx else xU) = Fin (a + real k' * d)"
      proof (cases "le fU fMin")
        case True
        have "add rnd xU dx = Fin (a + real (Suc k) * d)"
          using k r dx by (simp add: exact_def algebra_simps)
        then show ?thesis using True by metis
      next
        case False
        then show ?thesis using k by auto
      qed
      from step True IH [of rnd f dx fL "if le fU fMin then add rnd xU dx else xU" _ _ _ _ r]
        next_xU r dx
      show ?thesis
        by (simp add: Let_def)
    qed
  qed
qed




subsection \<open>Termination of the bracketing loop\<close>

lemma bracket_loop_bounded [simp]:
  "bracket_loop rnd f dx fL xU fU fMin True calls = Some (xU, calls)"
  by (simp add: bracket_loop.simps bracket_guard_def)

text \<open>
  Once a sample is not below or equal to the one before it, the loop stops: the test
  \<^verbatim>\<open>fU <= fMin\<close> fails on the next pass and \<^verbatim>\<open>bounded\<close> stays true.
\<close>

lemma bracket_loop_after_rise:
  assumes rise: "\<not> le (f (sample rnd x0 dx (Suc n))) (f (sample rnd x0 dx n))"
  shows "j \<le> n \<Longrightarrow>
    \<exists>r. bracket_loop rnd f dx fL (sample rnd x0 dx (Suc j)) (f (sample rnd x0 dx (Suc j)))
           (Math_min (f (sample rnd x0 dx j)) (f (sample rnd x0 dx (Suc j)))) b calls = Some r"
proof (induction "n - j" arbitrary: j b calls)
  case 0
  then have j: "j = n" by simp
  show ?case
    using rise by (subst bracket_loop.simps) (simp add: j Let_def)
next
  case (Suc m)
  then have "Suc j \<le> n" and "m = n - Suc j" by simp_all
  from Suc.hyps(1) [OF this(2) this(1)]
  show ?case
    by (subst bracket_loop.simps) (simp add: Let_def)
qed

text \<open>
  C8, as amended. The loop never changes \<open>dx\<close>, so its test of \<open>dx\<close> can only fail
  before the first pass. In every rounding the bracketing search returns when the value
  at \<open>x0 + dx\<close> is not below the value at \<open>x0\<close>, or when some later sample is greater
  than the sample before it or one of the two is NaN.
\<close>

theorem bracket_terminates_when_samples_rise:
  assumes "le (f x0) (f (sample rnd x0 dx 1)) \<or>
           (\<exists>n. \<not> le (f (sample rnd x0 dx (Suc n))) (f (sample rnd x0 dx n)))"
  shows "\<exists>r. bracketMinimum rnd f x0 dx = Some r"
proof -
  have "\<exists>r. bracket_loop rnd f dx (f x0) x0 (f x0) (f x0) False [x0] = Some r"
    using assms
  proof
    assume tie: "le (f x0) (f (sample rnd x0 dx 1))"
    then have "Math_min (f x0) (f (add rnd x0 dx)) = f x0" "\<not> isNaN (f x0)"
      by (cases "f x0"; cases "f (add rnd x0 dx)"; auto simp: Math_min_def le_def)+
    then show ?thesis
      by (subst bracket_loop.simps) (simp add: Let_def)
  next
    assume "\<exists>n. \<not> le (f (sample rnd x0 dx (Suc n))) (f (sample rnd x0 dx n))"
    then obtain n where "\<not> le (f (sample rnd x0 dx (Suc n))) (f (sample rnd x0 dx n))" ..
    from bracket_loop_after_rise [OF this, of 0] show ?thesis
      by (subst bracket_loop.simps) (simp add: Let_def)
  qed
  then show ?thesis
    by (auto simp: bracketMinimum_def Let_def)
qed

theorem bracket_terminates_when_samples_rise_witness:
  "\<not> le (quad exact 3 (sample exact (Fin 0) (Fin 1) (Suc 3)))
         (quad exact 3 (sample exact (Fin 0) (Fin 1) 3)) \<and>
   (\<exists>r. bracketMinimum exact (quad exact 3) (Fin 0) (Fin 1) = Some r)"
proof -
  have rise: "\<not> le (quad exact 3 (sample exact (Fin 0) (Fin 1) (Suc 3)))
                    (quad exact 3 (sample exact (Fin 0) (Fin 1) 3))"
    by (simp add: quad_def eval_nat_numeral)
  then have "le (quad exact 3 (Fin 0)) (quad exact 3 (sample exact (Fin 0) (Fin 1) 1)) \<or>
     (\<exists>n. \<not> le (quad exact 3 (sample exact (Fin 0) (Fin 1) (Suc n)))
                (quad exact 3 (sample exact (Fin 0) (Fin 1) n)))"
    by blast
  from bracket_terminates_when_samples_rise [OF this] rise show ?thesis
    by blast
qed

text \<open>The loop runs forever on \<^verbatim>\<open>x => -x\<close>: each sample is below the one before.\<close>

lemma bracket_loop_descending_diverges:
  assumes "bracket_loop rnd f dx fL xU fU fMin b calls = Some r"
  shows "\<not> (rnd = exact \<and> f = descending \<and> dx = Fin 1 \<and> fL = Fin 0 \<and> \<not> b \<and>
            (\<exists>k. 0 \<le> k \<and> xU = Fin k \<and> fU = Fin (- k) \<and> fMin = Fin (- k)))"
proof (rule bracket_loop.raw_induct
    [where P = "\<lambda>rnd f dx fL xU fU fMin b calls r.
       \<not> (rnd = exact \<and> f = descending \<and> dx = Fin 1 \<and> fL = Fin 0 \<and> \<not> b \<and>
            (\<exists>k. 0 \<le> k \<and> xU = Fin k \<and> fU = Fin (- k) \<and> fMin = Fin (- k)))", OF _ assms])
  fix loop rnd f dx fL xU fU fMin b calls r
  assume IH: "\<And>rnd f dx fL xU fU fMin b calls r.
       loop rnd f dx fL xU fU fMin b calls = Some r \<Longrightarrow>
       \<not> (rnd = exact \<and> f = descending \<and> dx = Fin 1 \<and> fL = Fin 0 \<and> \<not> b \<and>
            (\<exists>k. 0 \<le> k \<and> xU = Fin k \<and> fU = Fin (- k) \<and> fMin = Fin (- k)))"
    and step: "(if bracket_guard b dx
      then let advance = le fU fMin; fMin1 = if advance then fU else fMin;
               xU1 = if advance then add rnd xU dx else xU;
               fU1 = if advance then f xU1 else fU;
               calls1 = if advance then calls @ [xU1] else calls;
               bounded1 = \<not> advance; fMin2 = Math_min fMin1 fU1;
               bounded2 = if seq fL fMin2 then True else bounded1
           in loop rnd f dx fL xU1 fU1 fMin2 bounded2 calls1
      else Some (xU, calls)) = Some r"
  show "\<not> (rnd = exact \<and> f = descending \<and> dx = Fin 1 \<and> fL = Fin 0 \<and> \<not> b \<and>
            (\<exists>k. 0 \<le> k \<and> xU = Fin k \<and> fU = Fin (- k) \<and> fMin = Fin (- k)))"
  proof
    assume inv: "rnd = exact \<and> f = descending \<and> dx = Fin 1 \<and> fL = Fin 0 \<and> \<not> b \<and>
            (\<exists>k. 0 \<le> k \<and> xU = Fin k \<and> fU = Fin (- k) \<and> fMin = Fin (- k))"
    then obtain k where k: "0 \<le> k" "xU = Fin k" "fU = Fin (- k)" "fMin = Fin (- k)" by blast
    from inv k step
    have "loop exact descending (Fin 1) (Fin 0) (Fin (k + 1)) (Fin (- (k + 1))) (Fin (- (k + 1)))
            False (calls @ [Fin (k + 1)]) = Some r"
      by (simp add: bracket_guard_def descending_def Math_min_def Let_def)
    from IH [OF this] show False
      using k(1) by auto
  qed
qed

text \<open>
  C8, as the claim words it, fails: from \<open>x0 = 0\<close> with the finite step \<open>dx = 1\<close> the
  bracketing search of \<^verbatim>\<open>x => -x\<close> does not return.
\<close>

theorem bracket_descending_never_returns:
  "bracketMinimum exact descending (Fin 0) (Fin 1) = None"
proof -
  have "bracket_loop exact descending (Fin 1) (Fin 0) (Fin 0) (Fin 0) (Fin 0) False [Fin 0] = None"
  proof (cases "bracket_loop exact descending (Fin 1) (Fin 0) (Fin 0) (Fin 0) (Fin 0) False [Fin 0]")
    case None
    then show ?thesis .
  next
    case (Some r)
    from bracket_loop_descending_diverges [OF Some] show ?thesis
      by auto
  qed
  then show ?thesis
    by (simp add: bracketMinimum_def descending_def)
qed


section \<open>The golden-section search and the entry point\<close>

lemma golden_loop_no_pass:
  assumes "\<not> lt (Fin 1) maxIt"
  shows "golden_loop rnd f tol maxIt 0 xL xU x1 x2 f1 f2 calls = Some (1, xL, xU, f1, f2, calls)"
  using assms by (subst golden_loop.simps) simp

lemma goldenSectionMinimize_start:
  "goldenSectionMinimize rnd f xL xU tol maxIt st =
     map_option (golden_finish rnd (f xL) (f xU) xL xU maxIt st) (golden_start rnd f tol maxIt xL xU)"
  by (simp add: goldenSectionMinimize_def golden_start_def probe1_def probe2_def Let_def
      split: option.splits)

lemma golden_finish_cases:
  "golden_finish rnd f10 f20 xL0 xU0 maxIt st (it, xL, xU, f1, f2, calls) =
     (if isNaN f2 \<or> isNaN f1 \<or> seq (Fin (real it)) maxIt then
        (NaN, map_option (\<lambda>s. s\<lparr>iterations := it, argmin := half_sum rnd xU xL,
                 minimum := half_sum rnd f1 f2, converged := False\<rparr>) st, calls)
      else
        (if lt f10 (half_sum rnd f1 f2) then xL0
         else if lt f20 (half_sum rnd f1 f2) then xU0 else half_sum rnd xU xL,
         map_option (\<lambda>s. s\<lparr>iterations := it, argmin := half_sum rnd xU xL,
                 minimum := half_sum rnd f1 f2, converged := True\<rparr>) st, calls))"
  by (cases st) (simp_all add: golden_finish_def half_sum_def Let_def)

lemma golden_start_no_pass:
  assumes "\<not> lt (Fin 1) maxIt"
  shows "golden_start rnd f tol maxIt xL xU =
    Some (1, xL, xU, f (probe1 rnd xL xU), f (probe2 rnd xL xU),
      [probe1 rnd xL xU, probe2 rnd xL xU, xL, xU])"
  using assms by (simp add: golden_start_def golden_loop_no_pass)

lemma minimizeSearch_resolved:
  assumes "resolved rnd opts = (tol, dx, xMin, xMax, maxIt)"
  shows "minimizeSearch rnd f opts st =
     (if isFinite xMax \<and> isFinite xMin then
        goldenSectionMinimize rnd f xMin xMax tol maxIt (map_option initial_status st)
      else
        (case bracketMinimum rnd f (if gt xMin NInf then xMin else Fin 0) dx of
           None \<Rightarrow> None
         | Some (xL, xU, calls) \<Rightarrow>
             (case goldenSectionMinimize rnd f xL xU tol maxIt (map_option initial_status st) of
                None \<Rightarrow> None
              | Some (x, st1, calls1) \<Rightarrow> Some (x, st1, calls @ calls1))))"
proof -
  from assms have eqs:
    "tol = (case tolerance (case opts of None \<Rightarrow> no_options | Some o1 \<Rightarrow> o1) of
              None \<Rightarrow> rnd (1 / 10 ^ 8) | Some v \<Rightarrow> v)"
    "dx = (case initialIncrement (case opts of None \<Rightarrow> no_options | Some o1 \<Rightarrow> o1) of
             None \<Rightarrow> Fin 1 | Some v \<Rightarrow> v)"
    "xMin = (case lowerBound (case opts of None \<Rightarrow> no_options | Some o1 \<Rightarrow> o1) of
               None \<Rightarrow> NInf | Some v \<Rightarrow> v)"
    "xMax = (case upperBound (case opts of None \<Rightarrow> no_options | Some o1 \<Rightarrow> o1) of
               None \<Rightarrow> PInf | Some v \<Rightarrow> v)"
    "maxIt = (case maxIterations (case opts of None \<Rightarrow> no_options | Some o1 \<Rightarrow> o1) of
                None \<Rightarrow> Fin 100 | Some v \<Rightarrow> v)"
    by (simp_all add: resolved_def Let_def)
  show ?thesis
    unfolding eqs minimizeSearch_def Let_def by (rule refl)
qed

text \<open>
  The rule of the loop: what holds before it and is kept by a pass to the left and by a
  pass to the right holds of the values the loop leaves, together with the negation of
  its test.
\<close>

lemma golden_loop_rule:
  assumes run: "golden_loop rnd f tol maxIt it xL xU x1 x2 f1 f2 calls = Some r"
    and init: "I it xL xU x1 x2 f1 f2 calls"
    and left: "\<And>it xL xU x1 x2 f1 f2 calls.
       I it xL xU x1 x2 f1 f2 calls \<Longrightarrow> lt (Fin (real (Suc it))) maxIt \<Longrightarrow>
       gt (Math_abs (sub rnd xU xL)) tol \<Longrightarrow> gt f2 f1 \<Longrightarrow>
       I (Suc it) xL x2 (sub rnd x2 (mul rnd (PHI_RATIO rnd) (sub rnd x2 xL))) x1
         (f (sub rnd x2 (mul rnd (PHI_RATIO rnd) (sub rnd x2 xL)))) f1
         (calls @ [sub rnd x2 (mul rnd (PHI_RATIO rnd) (sub rnd x2 xL))])"
    and right: "\<And>it xL xU x1 x2 f1 f2 calls.
       I it xL xU x1 x2 f1 f2 calls \<Longrightarrow> lt (Fin (real (Suc it))) maxIt \<Longrightarrow>
       gt (Math_abs (sub rnd xU xL)) tol \<Longrightarrow> \<not> gt f2 f1 \<Longrightarrow>
       I (Suc it) x1 xU x2 (add rnd x1 (mul rnd (PHI_RATIO rnd) (sub rnd xU x1)))
         f2 (f (add rnd x1 (mul rnd (PHI_RATIO rnd) (sub rnd xU x1))))
         (calls @ [add rnd x1 (mul rnd (PHI_RATIO rnd) (sub rnd xU x1))])"
  shows "\<exists>it' xL' xU' x1' x2' f1' f2' calls'.
           r = (Suc it', xL', xU', f1', f2', calls') \<and> I it' xL' xU' x1' x2' f1' f2' calls' \<and>
           \<not> (lt (Fin (real (Suc it'))) maxIt \<and> gt (Math_abs (sub rnd xU' xL')) tol)"
proof -
  let ?Q = "\<lambda>r. \<exists>it' xL' xU' x1' x2' f1' f2' calls'.
           r = (Suc it', xL', xU', f1', f2', calls') \<and> I it' xL' xU' x1' x2' f1' f2' calls' \<and>
           \<not> (lt (Fin (real (Suc it'))) maxIt \<and> gt (Math_abs (sub rnd xU' xL')) tol)"
  let ?P = "\<lambda>rnd' f' tol' maxIt' it xL xU x1 x2 f1 f2 calls r.
       rnd' = rnd \<longrightarrow> f' = f \<longrightarrow> tol' = tol \<longrightarrow> maxIt' = maxIt \<longrightarrow>
       I it xL xU x1 x2 f1 f2 calls \<longrightarrow> ?Q r"
  have "?P rnd f tol maxIt it xL xU x1 x2 f1 f2 calls r"
  proof (rule golden_loop.raw_induct [where P = ?P, OF _ run])
    fix loop rnd' f' tol' maxIt' it xL xU x1 x2 f1 f2 calls r
    assume IH: "\<And>rnd' f' tol' maxIt' it xL xU x1 x2 f1 f2 calls r.
        loop rnd' f' tol' maxIt' it xL xU x1 x2 f1 f2 calls = Some r \<Longrightarrow>
        ?P rnd' f' tol' maxIt' it xL xU x1 x2 f1 f2 calls r"
      and step: "(let iteration1 = it + 1
      in if lt (Fin (real iteration1)) maxIt' \<and> gt (Math_abs (sub rnd' xU xL)) tol'
         then if gt f2 f1
              then let xU1 = x2;
                       x1a = sub rnd' xU1 (mul rnd' (PHI_RATIO rnd') (sub rnd' xU1 xL));
                       f1a = f' x1a
                   in loop rnd' f' tol' maxIt' iteration1 xL xU1 x1a x1 f1a f1 (calls @ [x1a])
              else let xL1 = x1;
                       x2a = add rnd' xL1 (mul rnd' (PHI_RATIO rnd') (sub rnd' xU xL1));
                       f2a = f' x2a
                   in loop rnd' f' tol' maxIt' iteration1 xL1 xU x2 x2a f2 f2a (calls @ [x2a])
         else Some (iteration1, xL, xU, f1, f2, calls)) = Some r"
    show "?P rnd' f' tol' maxIt' it xL xU x1 x2 f1 f2 calls r"
    proof (intro impI)
      assume eqs: "rnd' = rnd" "f' = f" "tol' = tol" "maxIt' = maxIt"
        and inv: "I it xL xU x1 x2 f1 f2 calls"
      show "?Q r"
      proof (cases "lt (Fin (real (Suc it))) maxIt \<and> gt (Math_abs (sub rnd xU xL)) tol")
        case False
        with step eqs have "r = (Suc it, xL, xU, f1, f2, calls)"
          by (auto simp: Let_def)
        with inv False show ?thesis by blast
      next
        case True
        show ?thesis
        proof (cases "gt f2 f1")
          case gt: True
          from step True gt eqs
          have "loop rnd f tol maxIt (Suc it) xL x2
                  (sub rnd x2 (mul rnd (PHI_RATIO rnd) (sub rnd x2 xL))) x1
                  (f (sub rnd x2 (mul rnd (PHI_RATIO rnd) (sub rnd x2 xL)))) f1
                  (calls @ [sub rnd x2 (mul rnd (PHI_RATIO rnd) (sub rnd x2 xL))]) = Some r"
            by (simp add: Let_def)
          from IH [OF this] left [OF inv _ _ gt] True show ?thesis
            by blast
        next
          case ngt: False
          from step True ngt eqs
          have "loop rnd f tol maxIt (Suc it) x1 xU x2
                  (add rnd x1 (mul rnd (PHI_RATIO rnd) (sub rnd xU x1)))
                  f2 (f (add rnd x1 (mul rnd (PHI_RATIO rnd) (sub rnd xU x1))))
                  (calls @ [add rnd x1 (mul rnd (PHI_RATIO rnd) (sub rnd xU x1))]) = Some r"
            by (simp add: Let_def)
          from IH [OF this] right [OF inv _ _ ngt] True show ?thesis
            by blast
        qed
      qed
    qed
  qed
  with init show ?thesis by blast
qed

text \<open>The loop returns whenever the cap is not plus infinity.\<close>

lemma golden_loop_terminates:
  assumes cap: "\<not> lt (Fin (real n)) maxIt"
  shows "golden_loop rnd f tol maxIt it xL xU x1 x2 f1 f2 calls \<noteq> None"
proof (induction "n - Suc it" arbitrary: it xL xU x1 x2 f1 f2 calls)
  case 0
  then have "n \<le> Suc it" by simp
  from lt_Fin_mono [OF cap this] show ?case
    by (subst golden_loop.simps) (simp add: Let_def)
next
  case (Suc d)
  then have "d = n - Suc (Suc it)" by simp
  note IH = Suc.hyps(1) [OF this]
  show ?case
  proof (cases "lt (Fin (real (Suc it))) maxIt \<and> gt (Math_abs (sub rnd xU xL)) tol")
    case False
    then show ?thesis
      by (subst golden_loop.simps) (auto simp: Let_def)
  next
    case True
    show ?thesis
    proof (cases "gt f2 f1")
      case gt: True
      have eq: "golden_loop rnd f tol maxIt it xL xU x1 x2 f1 f2 calls =
            golden_loop rnd f tol maxIt (Suc it) xL x2
              (sub rnd x2 (mul rnd (PHI_RATIO rnd) (sub rnd x2 xL))) x1
              (f (sub rnd x2 (mul rnd (PHI_RATIO rnd) (sub rnd x2 xL)))) f1
              (calls @ [sub rnd x2 (mul rnd (PHI_RATIO rnd) (sub rnd x2 xL))])"
        using True gt by (subst golden_loop.simps) (simp add: Let_def)
      show ?thesis
        unfolding eq by (rule IH)
    next
      case ngt: False
      have eq: "golden_loop rnd f tol maxIt it xL xU x1 x2 f1 f2 calls =
            golden_loop rnd f tol maxIt (Suc it) x1 xU x2
              (add rnd x1 (mul rnd (PHI_RATIO rnd) (sub rnd xU x1)))
              f2 (f (add rnd x1 (mul rnd (PHI_RATIO rnd) (sub rnd xU x1))))
              (calls @ [add rnd x1 (mul rnd (PHI_RATIO rnd) (sub rnd xU x1))])"
        using True ngt by (subst golden_loop.simps) (simp add: Let_def)
      show ?thesis
        unfolding eq by (rule IH)
    qed
  qed
qed

lemma cap_exists: "maxIt \<noteq> PInf \<Longrightarrow> \<exists>n. \<not> lt (Fin (real n)) maxIt"
proof (cases maxIt)
  case (Fin m)
  obtain n :: nat where "m \<le> real n" using real_arch_simple by blast
  then show ?thesis using Fin by (auto intro!: exI [of _ n])
qed simp_all


lemma golden_loop_finite:
  assumes "golden_loop exact f tol maxIt it xL xU x1 x2 f1 f2 calls = Some (it', xLe, xUe, f1e, f2e, calls')"
    and "isFinite xL" "isFinite xU" "isFinite x1" "isFinite x2"
  shows "isFinite xLe \<and> isFinite xUe"
proof -
  let ?I = "\<lambda>(it::nat) xL xU x1 x2 (f1::number) (f2::number) (calls::number list).
              isFinite xL \<and> isFinite xU \<and> isFinite x1 \<and> isFinite x2"
  have fin: "\<And>x y. isFinite x \<Longrightarrow> isFinite y \<Longrightarrow>
      isFinite (sub exact x (mul exact (PHI_RATIO exact) (sub exact x y))) \<and>
      isFinite (add exact y (mul exact (PHI_RATIO exact) (sub exact x y)))"
    by (case_tac x; case_tac y) simp_all
  from golden_loop_rule [where I = ?I, OF assms(1)] assms(2-) fin
  show ?thesis by auto
qed

lemma half_sum_finite: "isFinite x \<Longrightarrow> isFinite y \<Longrightarrow> isFinite (half_sum exact x y)"
  by (cases x; cases y) (simp_all add: half_sum_def)

lemma refiner_nan_step_eval:
  "minimizeSearch exact const0 (Some (no_options\<lparr>initialIncrement := Some NaN\<rparr>))
       (Some blank_status) =
     Some (NaN, Some \<lparr>iterations = 1, argmin = NaN, minimum = Fin 0, converged = True\<rparr>,
           [Fin 0, NaN, NaN, NaN, Fin 0])"
  apply (simp add: minimizeSearch_def no_options_def bracketMinimum_def bracket_loop.simps
      bracket_guard_def gt_def)
  apply (simp add: goldenSectionMinimize_def)
  apply (subst golden_loop.simps)
  apply (simp add: const0_def initial_status_def blank_status_def golden_finish_def Let_def)
  done

lemma golden_start_cap_1_eval:
  "golden_start exact const0 (Fin (1 / 10 ^ 8)) (Fin 1) (Fin 0) (Fin 10) =
     Some (1, Fin 0, Fin 10, Fin 0, Fin 0, [Fin (10 - phi * 10), Fin (phi * 10), Fin 0, Fin 10])"
  by (simp add: golden_start_no_pass probe1_def probe2_def const0_def)

subsection \<open>The failure signal\<close>




subsection \<open>A cap that the counter never equals\<close>

text \<open>
  C10, as amended. In every rounding: with a cap that is not greater than \<open>1\<close> (so also
  \<open>0\<close>, a negative one and NaN) the loop makes no pass; if moreover the cap is not \<open>1\<close>
  and the two initial probe values are not NaN, the refiner returns one of the bounds or
  the midpoint with \<open>converged\<close> true, whereas the cap \<open>1\<close> gives NaN with \<open>converged\<close>
  false. A cap that no value of the counter equals never makes the refiner fail for
  exhaustion, but such a cap greater than \<open>1\<close> does not stop the passes of the loop.
\<close>

theorem refiner_cap_below_one:
  "(\<not> lt (Fin 1) maxIt \<longrightarrow>
      golden_start rnd f tol maxIt xL xU =
        Some (1, xL, xU, f (probe1 rnd xL xU), f (probe2 rnd xL xU),
              [probe1 rnd xL xU, probe2 rnd xL xU, xL, xU])) \<and>
   (\<not> lt (Fin 1) maxIt \<and> \<not> seq (Fin 1) maxIt \<and>
    \<not> isNaN (f (probe1 rnd xL xU)) \<and> \<not> isNaN (f (probe2 rnd xL xU)) \<longrightarrow>
      goldenSectionMinimize rnd f xL xU tol maxIt (Some s) =
        Some (if lt (f xL) (half_sum rnd (f (probe1 rnd xL xU)) (f (probe2 rnd xL xU))) then xL
              else if lt (f xU) (half_sum rnd (f (probe1 rnd xL xU)) (f (probe2 rnd xL xU))) then xU
              else half_sum rnd xU xL,
              Some (s\<lparr>iterations := 1, argmin := half_sum rnd xU xL,
                 minimum := half_sum rnd (f (probe1 rnd xL xU)) (f (probe2 rnd xL xU)),
                 converged := True\<rparr>),
              [probe1 rnd xL xU, probe2 rnd xL xU, xL, xU])) \<and>
   goldenSectionMinimize rnd f xL xU tol (Fin 1) (Some s) =
     Some (NaN,
           Some (s\<lparr>iterations := 1, argmin := half_sum rnd xU xL,
              minimum := half_sum rnd (f (probe1 rnd xL xU)) (f (probe2 rnd xL xU)),
              converged := False\<rparr>),
           [probe1 rnd xL xU, probe2 rnd xL xU, xL, xU]) \<and>
   ((\<forall>n. \<not> seq (Fin (real n)) maxIt) \<and>
    golden_start rnd f tol maxIt xL xU = Some (it, xLe, xUe, f1e, f2e, calls) \<and>
    \<not> isNaN f1e \<and> \<not> isNaN f2e \<longrightarrow>
      (\<exists>v s'. goldenSectionMinimize rnd f xL xU tol maxIt (Some s) = Some (v, Some s', calls) \<and>
         converged s' \<and> iterations s' = it))"
proof (intro conjI impI)
  assume "\<not> lt (Fin 1) maxIt"
  then show "golden_start rnd f tol maxIt xL xU =
        Some (1, xL, xU, f (probe1 rnd xL xU), f (probe2 rnd xL xU),
              [probe1 rnd xL xU, probe2 rnd xL xU, xL, xU])"
    by (rule golden_start_no_pass)
next
  assume "\<not> lt (Fin 1) maxIt \<and> \<not> seq (Fin 1) maxIt \<and>
    \<not> isNaN (f (probe1 rnd xL xU)) \<and> \<not> isNaN (f (probe2 rnd xL xU))"
  then show "goldenSectionMinimize rnd f xL xU tol maxIt (Some s) =
        Some (if lt (f xL) (half_sum rnd (f (probe1 rnd xL xU)) (f (probe2 rnd xL xU))) then xL
              else if lt (f xU) (half_sum rnd (f (probe1 rnd xL xU)) (f (probe2 rnd xL xU))) then xU
              else half_sum rnd xU xL,
              Some (s\<lparr>iterations := 1, argmin := half_sum rnd xU xL,
                 minimum := half_sum rnd (f (probe1 rnd xL xU)) (f (probe2 rnd xL xU)),
                 converged := True\<rparr>),
              [probe1 rnd xL xU, probe2 rnd xL xU, xL, xU])"
    by (simp add: goldenSectionMinimize_start golden_start_no_pass golden_finish_cases)
next
  show "goldenSectionMinimize rnd f xL xU tol (Fin 1) (Some s) =
     Some (NaN,
           Some (s\<lparr>iterations := 1, argmin := half_sum rnd xU xL,
              minimum := half_sum rnd (f (probe1 rnd xL xU)) (f (probe2 rnd xL xU)),
              converged := False\<rparr>),
           [probe1 rnd xL xU, probe2 rnd xL xU, xL, xU])"
    by (simp add: goldenSectionMinimize_start golden_start_no_pass golden_finish_cases)
next
  assume "(\<forall>n. \<not> seq (Fin (real n)) maxIt) \<and>
    golden_start rnd f tol maxIt xL xU = Some (it, xLe, xUe, f1e, f2e, calls) \<and>
    \<not> isNaN f1e \<and> \<not> isNaN f2e"
  then show "\<exists>v s'. goldenSectionMinimize rnd f xL xU tol maxIt (Some s) = Some (v, Some s', calls) \<and>
         converged s' \<and> iterations s' = it"
    by (simp add: goldenSectionMinimize_start golden_finish_cases)
qed

theorem refiner_cap_below_one_witness:
  "\<not> lt (Fin 1) (Fin 0) \<and> \<not> seq (Fin 1) (Fin 0) \<and>
   \<not> isNaN (const0 (probe1 exact (Fin 0) (Fin 10))) \<and>
   \<not> isNaN (const0 (probe2 exact (Fin 0) (Fin 10))) \<and>
   goldenSectionMinimize exact const0 (Fin 0) (Fin 10) (Fin (1 / 10 ^ 8)) (Fin 0)
       (Some blank_status) =
     Some (Fin 5, Some \<lparr>iterations = 1, argmin = Fin 5, minimum = Fin 0, converged = True\<rparr>,
           [Fin (10 - phi * 10), Fin (phi * 10), Fin 0, Fin 10])"
  using refiner_cap_below_one [of "Fin 0" exact const0 "Fin (1 / 10 ^ 8)" "Fin 0" "Fin 10"
      blank_status]
  by (simp add: const0_def probe1_def probe2_def half_sum_def blank_status_def)

text \<open>
  C10, as the claim words it, fails: the counter never equals the cap \<open>3/2\<close>, and with
  it the loop makes one pass on \<open>[0, 1]\<close> (the counter ends at \<open>2\<close> and \<open>f\<close> is called a
  fifth time).
\<close>

theorem refiner_cap_three_halves_one_pass:
  "goldenSectionMinimize exact const0 (Fin 0) (Fin 1) (Fin 0) (Fin (3/2)) (Some blank_status) =
     Some (Fin (1 - phi / 2),
           Some \<lparr>iterations = 2, argmin = Fin (1 - phi / 2), minimum = Fin 0, converged = True\<rparr>,
           [Fin (1 - phi), Fin phi, Fin 0, Fin 1, Fin (1 - phi + phi * phi)])"
  apply (simp add: goldenSectionMinimize_def)
  apply (subst golden_loop.simps)
  apply (simp add: const0_def Let_def)
  apply (subst golden_loop.simps)
  apply (simp add: const0_def Let_def golden_finish_def blank_status_def)
  done

subsection \<open>The two modes of the entry point\<close>

text \<open>
  C7, as amended. In every rounding: if both bounds resolve to finite values the entry
  point is the refiner on these bounds, and the bracketing search is not run; otherwise
  the bracketing search is run with the configured increment from the lower bound if this
  is greater than minus infinity (plus infinity included), and from \<open>0\<close> otherwise
  (minus infinity or NaN); the entry point does not return if that search does not, and
  else its interval is passed to the refiner.
\<close>

theorem minimize_mode_selection:
  assumes "resolved rnd opts = (tol, dx, xMin, xMax, maxIt)"
  shows "(isFinite xMin \<and> isFinite xMax \<longrightarrow>
            minimizeSearch rnd f opts st =
              goldenSectionMinimize rnd f xMin xMax tol maxIt (map_option initial_status st)) \<and>
         (\<not> (isFinite xMin \<and> isFinite xMax) \<longrightarrow>
            minimizeSearch rnd f opts st =
              (case bracketMinimum rnd f (if gt xMin NInf then xMin else Fin 0) dx of
                 None \<Rightarrow> None
               | Some (xL, xU, calls) \<Rightarrow>
                   (case goldenSectionMinimize rnd f xL xU tol maxIt (map_option initial_status st) of
                      None \<Rightarrow> None
                    | Some (x, st1, calls1) \<Rightarrow> Some (x, st1, calls @ calls1))))"
  unfolding minimizeSearch_resolved [OF assms] by auto

theorem minimize_mode_selection_witness:
  "resolved exact (Some (no_options\<lparr>lowerBound := Some (Fin 1), upperBound := Some (Fin 5)\<rparr>)) =
     (Fin (1 / 10 ^ 8), Fin 1, Fin 1, Fin 5, Fin 100) \<and>
   isFinite (Fin 1) \<and> isFinite (Fin 5) \<and>
   minimizeSearch exact (quad exact 0)
       (Some (no_options\<lparr>lowerBound := Some (Fin 1), upperBound := Some (Fin 5)\<rparr>)) None =
     goldenSectionMinimize exact (quad exact 0) (Fin 1) (Fin 5) (Fin (1 / 10 ^ 8)) (Fin 100) None"
proof -
  have r: "resolved exact
      (Some (no_options\<lparr>lowerBound := Some (Fin 1), upperBound := Some (Fin 5)\<rparr>)) =
     (Fin (1 / 10 ^ 8), Fin 1, Fin 1, Fin 5, Fin 100)"
    by (simp add: resolved_def no_options_def)
  from minimize_mode_selection [OF r, of "quad exact 0" None] r show ?thesis
    by simp
qed

text \<open>
  C7, as the claim words it, fails for the lower bound plus infinity, which is not finite:
  the code starts the bracketing search there, and not at \<open>0\<close>.
\<close>

theorem minimize_starts_at_infinite_lower_bound:
  "minimizeSearch exact const0
       (Some (no_options\<lparr>tolerance := Some (Fin 1), lowerBound := Some PInf\<rparr>)) None =
     Some (PInf, None, [PInf, PInf, NaN, NaN, PInf, PInf]) \<and>
   spec_minimizeSearch exact const0
       (Some (no_options\<lparr>tolerance := Some (Fin 1), lowerBound := Some PInf\<rparr>)) None =
     Some (Fin (1 / 2), None, [Fin 0, Fin 1, Fin (1 - phi), Fin phi, Fin 0, Fin 1])"
proof -
  have r: "resolved exact (Some (no_options\<lparr>tolerance := Some (Fin 1), lowerBound := Some PInf\<rparr>))
           = (Fin 1, Fin 1, PInf, PInf, Fin 100)"
    by (simp add: resolved_def no_options_def)
  have b1: "bracketMinimum exact const0 PInf (Fin 1) = Some (PInf, PInf, [PInf, PInf])"
    by (simp add: bracketMinimum_def bracket_loop.simps bracket_guard_def const0_def sub_def)
  have b2: "bracketMinimum exact const0 (Fin 0) (Fin 1) = Some (Fin 0, Fin 1, [Fin 0, Fin 1])"
    by (simp add: bracketMinimum_def bracket_loop.simps bracket_guard_def const0_def Let_def)
  have g1: "goldenSectionMinimize exact const0 PInf PInf (Fin 1) (Fin 100) None =
      Some (PInf, None, [NaN, NaN, PInf, PInf])"
    by (simp add: goldenSectionMinimize_def sub_def, subst golden_loop.simps)
       (simp add: golden_finish_def const0_def sub_def)
  have g2: "goldenSectionMinimize exact const0 (Fin 0) (Fin 1) (Fin 1) (Fin 100) None =
      Some (Fin (1 / 2), None, [Fin (1 - phi), Fin phi, Fin 0, Fin 1])"
    by (simp add: goldenSectionMinimize_def, subst golden_loop.simps)
       (simp add: golden_finish_def const0_def)
  show ?thesis
    by (simp add: minimizeSearch_resolved [OF r] spec_minimizeSearch_def r spec_start_def
        gt_def b1 b2 g1 g2)
qed


section \<open>The golden-section search without rounding\<close>

text \<open>
  Without rounding, on a finite interval \<open>[a, b]\<close>, the loop keeps its two ends inside
  \<open>[a, b]\<close>, its two probes at the golden sections of the current interval, and calls
  \<open>f\<close> inside \<open>[a, b]\<close> only; after \<open>n\<close> passes the width is \<open>phi ^ n * (b - a)\<close>.
  \<open>E\<close> is any further property of the pass count and the two ends that a pass to the
  left and a pass to the right keep.
\<close>

lemma golden_exact_invariant:
  fixes a b :: real
  assumes run: "golden_start exact f tol maxIt (Fin a) (Fin b) = Some (it, xLe, xUe, f1e, f2e, calls)"
    and ab: "a \<le> b"
    and init: "E 0 a b"
    and left: "\<And>n l u. a \<le> l \<Longrightarrow> l \<le> u \<Longrightarrow> u \<le> b \<Longrightarrow> u - l = phi ^ n * (b - a) \<Longrightarrow>
        E n l u \<Longrightarrow> gt (Fin (u - l)) tol \<Longrightarrow>
        gt (f (Fin (l + phi * (u - l)))) (f (Fin (u - phi * (u - l)))) \<Longrightarrow>
        E (Suc n) l (l + phi * (u - l))"
    and right: "\<And>n l u. a \<le> l \<Longrightarrow> l \<le> u \<Longrightarrow> u \<le> b \<Longrightarrow> u - l = phi ^ n * (b - a) \<Longrightarrow>
        E n l u \<Longrightarrow> gt (Fin (u - l)) tol \<Longrightarrow>
        \<not> gt (f (Fin (l + phi * (u - l)))) (f (Fin (u - phi * (u - l)))) \<Longrightarrow>
        E (Suc n) (u - phi * (u - l)) u"
  shows "\<exists>n l u. it = Suc n \<and> xLe = Fin l \<and> xUe = Fin u \<and> a \<le> l \<and> l \<le> u \<and> u \<le> b \<and>
           u - l = phi ^ n * (b - a) \<and> E n l u \<and>
           f1e = f (Fin (u - phi * (u - l))) \<and> f2e = f (Fin (l + phi * (u - l))) \<and>
           (\<forall>c \<in> set calls. in_interval a b c) \<and>
           \<not> (lt (Fin (real (Suc n))) maxIt \<and> gt (Fin (u - l)) tol)"
proof -
  define I where "I = (\<lambda>(n::nat) xL xU x1 x2 f1 f2 (cs::number list).
      \<exists>l u. xL = Fin l \<and> xU = Fin u \<and> x1 = Fin (u - phi * (u - l)) \<and>
        x2 = Fin (l + phi * (u - l)) \<and> a \<le> l \<and> l \<le> u \<and> u \<le> b \<and>
        u - l = phi ^ n * (b - a) \<and> E n l u \<and> f1 = f x1 \<and> f2 = f x2 \<and>
        (\<forall>c \<in> set cs. in_interval a b c))"
  have inside: "a \<le> u - phi * (u - l) \<and> u - phi * (u - l) \<le> b \<and>
        a \<le> l + phi * (u - l) \<and> l + phi * (u - l) \<le> b \<and>
        l \<le> u - phi * (u - l) \<and> l + phi * (u - l) \<le> u \<and>
        l \<le> l + phi * (u - l) \<and> u - phi * (u - l) \<le> u"
    if "a \<le> l" "l \<le> u" "u \<le> b" for l u
  proof -
    have w: "0 \<le> u - l" using that by simp
    have "0 \<le> phi * (u - l)" using w phi_pos by simp
    moreover have "phi * (u - l) \<le> 1 * (u - l)"
      using w phi_lt_1 by (intro mult_right_mono) simp_all
    ultimately show ?thesis using that by simp
  qed
  have I0: "I 0 (Fin a) (Fin b) (probe1 exact (Fin a) (Fin b)) (probe2 exact (Fin a) (Fin b))
      (f (probe1 exact (Fin a) (Fin b))) (f (probe2 exact (Fin a) (Fin b)))
      [probe1 exact (Fin a) (Fin b), probe2 exact (Fin a) (Fin b), Fin a, Fin b]"
    unfolding I_def using ab init inside [of a b]
    by (simp add: probe1_def probe2_def in_interval_iff)
  have L: "I (Suc n) xL x2 (sub exact x2 (mul exact (PHI_RATIO exact) (sub exact x2 xL))) x1
         (f (sub exact x2 (mul exact (PHI_RATIO exact) (sub exact x2 xL)))) f1
         (cs @ [sub exact x2 (mul exact (PHI_RATIO exact) (sub exact x2 xL))])"
    if inv: "I n xL xU x1 x2 f1 f2 cs" and "lt (Fin (real (Suc n))) maxIt"
      and w: "gt (Math_abs (sub exact xU xL)) tol" and d: "gt f2 f1" for n xL xU x1 x2 f1 f2 cs
  proof -
    from inv obtain l u where s: "xL = Fin l" "xU = Fin u" "x1 = Fin (u - phi * (u - l))"
        "x2 = Fin (l + phi * (u - l))" "a \<le> l" "l \<le> u" "u \<le> b"
        "u - l = phi ^ n * (b - a)" "E n l u" "f1 = f x1" "f2 = f x2"
        "\<forall>c \<in> set cs. in_interval a b c"
      unfolding I_def by blast
    let ?u = "l + phi * (u - l)"
    have in1: "l \<le> ?u" "?u \<le> u" using inside [OF s(5-7)] by blast+
    have e: "E (Suc n) l ?u"
      using left [OF s(5-9)] w d s by simp
    have "l + phi * (?u - l) = l + (phi * phi) * (u - l)"
      by (simp add: algebra_simps)
    also have "\<dots> = l + (1 - phi) * (u - l)" unfolding phi_sq ..
    also have "\<dots> = u - phi * (u - l)" by (simp add: algebra_simps)
    finally have x2: "u - phi * (u - l) = l + phi * (?u - l)" by simp
    have wd: "?u - l = phi ^ Suc n * (b - a)"
      using s(8) by simp
    have in2: "a \<le> ?u - phi * (?u - l)" "?u - phi * (?u - l) \<le> b"
      using inside [of l ?u] s(5,7) in1 by simp_all
    show ?thesis
      unfolding I_def
      apply (rule exI [of _ l], rule exI [of _ ?u])
      using s e x2 wd in1 in2 by (simp add: in_interval_iff)
  qed
  have R: "I (Suc n) x1 xU x2 (add exact x1 (mul exact (PHI_RATIO exact) (sub exact xU x1)))
         f2 (f (add exact x1 (mul exact (PHI_RATIO exact) (sub exact xU x1))))
         (cs @ [add exact x1 (mul exact (PHI_RATIO exact) (sub exact xU x1))])"
    if inv: "I n xL xU x1 x2 f1 f2 cs" and "lt (Fin (real (Suc n))) maxIt"
      and w: "gt (Math_abs (sub exact xU xL)) tol" and d: "\<not> gt f2 f1" for n xL xU x1 x2 f1 f2 cs
  proof -
    from inv obtain l u where s: "xL = Fin l" "xU = Fin u" "x1 = Fin (u - phi * (u - l))"
        "x2 = Fin (l + phi * (u - l))" "a \<le> l" "l \<le> u" "u \<le> b"
        "u - l = phi ^ n * (b - a)" "E n l u" "f1 = f x1" "f2 = f x2"
        "\<forall>c \<in> set cs. in_interval a b c"
      unfolding I_def by blast
    let ?l = "u - phi * (u - l)"
    have in1: "l \<le> ?l" "?l \<le> u" using inside [OF s(5-7)] by blast+
    have e: "E (Suc n) ?l u"
      using right [OF s(5-9)] w d s by simp
    have "u - phi * (u - ?l) = u - (phi * phi) * (u - l)"
      by (simp add: algebra_simps)
    also have "\<dots> = u - (1 - phi) * (u - l)" unfolding phi_sq ..
    also have "\<dots> = l + phi * (u - l)" by (simp add: algebra_simps)
    finally have x1: "l + phi * (u - l) = u - phi * (u - ?l)" by simp
    have wd: "u - ?l = phi ^ Suc n * (b - a)"
      using s(8) by simp
    have in2: "a \<le> ?l + phi * (u - ?l)" "?l + phi * (u - ?l) \<le> b"
      using inside [of ?l u] s(5,7) in1 by simp_all
    show ?thesis
      unfolding I_def
      apply (rule exI [of _ ?l], rule exI [of _ u])
      using s e x1 wd in1 in2 by (simp add: in_interval_iff)
  qed
  note run' = run [unfolded golden_start_def]
  have "\<exists>it' xL' xU' x1' x2' f1' f2' calls'.
      (it, xLe, xUe, f1e, f2e, calls) = (Suc it', xL', xU', f1', f2', calls') \<and>
      I it' xL' xU' x1' x2' f1' f2' calls' \<and>
      \<not> (lt (Fin (real (Suc it'))) maxIt \<and> gt (Math_abs (sub exact xU' xL')) tol)"
  proof (rule golden_loop_rule [where I = I, OF run' I0])
    fix n xL xU x1 x2 f1 f2 cs
    assume h: "I n xL xU x1 x2 f1 f2 cs" "lt (Fin (real (Suc n))) maxIt"
      "gt (Math_abs (sub exact xU xL)) tol" "gt f2 f1"
    show "I (Suc n) xL x2 (sub exact x2 (mul exact (PHI_RATIO exact) (sub exact x2 xL))) x1
         (f (sub exact x2 (mul exact (PHI_RATIO exact) (sub exact x2 xL)))) f1
         (cs @ [sub exact x2 (mul exact (PHI_RATIO exact) (sub exact x2 xL))])"
      by (rule L [OF h])
  next
    fix n xL xU x1 x2 f1 f2 cs
    assume h: "I n xL xU x1 x2 f1 f2 cs" "lt (Fin (real (Suc n))) maxIt"
      "gt (Math_abs (sub exact xU xL)) tol" "\<not> gt f2 f1"
    show "I (Suc n) x1 xU x2 (add exact x1 (mul exact (PHI_RATIO exact) (sub exact xU x1)))
         f2 (f (add exact x1 (mul exact (PHI_RATIO exact) (sub exact xU x1))))
         (cs @ [add exact x1 (mul exact (PHI_RATIO exact) (sub exact xU x1))])"
      by (rule R [OF h])
  qed
  then
  obtain n x1' x2' where
    r: "it = Suc n" and inv: "I n xLe xUe x1' x2' f1e f2e calls"
    and ex: "\<not> (lt (Fin (real (Suc n))) maxIt \<and> gt (Math_abs (sub exact xUe xLe)) tol)"
    by auto
  from inv obtain l u where s: "xLe = Fin l" "xUe = Fin u" "x1' = Fin (u - phi * (u - l))"
        "x2' = Fin (l + phi * (u - l))" "a \<le> l" "l \<le> u" "u \<le> b"
        "u - l = phi ^ n * (b - a)" "E n l u" "f1e = f x1'" "f2e = f x2'"
        "\<forall>c \<in> set calls. in_interval a b c"
    unfolding I_def by blast
  from ex s have "\<not> (lt (Fin (real (Suc n))) maxIt \<and> gt (Fin (u - l)) tol)"
    by simp
  with r s show ?thesis by blast
qed


lemma golden_finish_value:
  "fst (golden_finish rnd f10 f20 xL0 xU0 maxIt st (it, xL, xU, f1, f2, calls)) =
     (if isNaN f2 \<or> isNaN f1 \<or> seq (Fin (real it)) maxIt then NaN
      else if lt f10 (half_sum rnd f1 f2) then xL0
      else if lt f20 (half_sum rnd f1 f2) then xU0 else half_sum rnd xU xL)"
  by (simp add: golden_finish_cases)

lemma golden_finish_calls:
  "snd (snd (golden_finish rnd f10 f20 xL0 xU0 maxIt st (it, xL, xU, f1, f2, calls))) = calls"
  by (simp add: golden_finish_cases)

lemma golden_finish_argmin:
  "fst (snd (golden_finish rnd f10 f20 xL0 xU0 maxIt st (it, xL, xU, f1, f2, calls))) = Some s'
   \<Longrightarrow> argmin s' = half_sum rnd xU xL \<and> minimum s' = half_sum rnd f1 f2 \<and> iterations s' = it \<and>
       (converged s' \<longleftrightarrow> \<not> (isNaN f2 \<or> isNaN f1 \<or> seq (Fin (real it)) maxIt))"
  by (cases st) (auto simp: golden_finish_cases split: if_splits)

lemma half_sum_exact [simp]: "half_sum exact (Fin x) (Fin y) = Fin ((x + y) / 2)"
  by (simp add: half_sum_def)

lemma goldenSectionMinimize_SomeD:
  assumes "goldenSectionMinimize rnd f xL xU tol maxIt st = Some res"
  obtains r where "golden_start rnd f tol maxIt xL xU = Some r"
    and "res = golden_finish rnd (f xL) (f xU) xL xU maxIt st r"
  using assms by (auto simp: goldenSectionMinimize_start)

lemma golden_const0_unit_eval:
  "goldenSectionMinimize exact const0 (Fin 0) (Fin 1) (Fin 1) (Fin 100) None =
      Some (Fin (1 / 2), None, [Fin (1 - phi), Fin phi, Fin 0, Fin 1])"
  by (simp add: goldenSectionMinimize_def, subst golden_loop.simps)
     (simp add: golden_finish_def const0_def)

subsection \<open>The refiner stays inside a finite interval\<close>





lemma golden_budget:
  fixes a b t m :: real
  assumes ab: "a \<le> b" and small: "phi ^ N * (b - a) \<le> t" and cap: "real (Suc N) < m"
  shows "\<exists>it xLe xUe f1e f2e calls.
     golden_start exact f (Fin t) (Fin m) (Fin a) (Fin b) = Some (it, xLe, xUe, f1e, f2e, calls) \<and>
     lt (Fin (real it)) (Fin m)"
proof -
  obtain k where "\<not> lt (Fin (real k)) (Fin m)"
    using cap_exists [of "Fin m"] by auto
  from golden_loop_terminates [OF this]
  have "golden_start exact f (Fin t) (Fin m) (Fin a) (Fin b) \<noteq> None"
    unfolding golden_start_def .
  then obtain it xLe xUe f1e f2e calls where start:
    "golden_start exact f (Fin t) (Fin m) (Fin a) (Fin b) = Some (it, xLe, xUe, f1e, f2e, calls)"
    by auto
  have "\<exists>n l u. it = Suc n \<and> xLe = Fin l \<and> xUe = Fin u \<and> a \<le> l \<and> l \<le> u \<and> u \<le> b \<and>
           u - l = phi ^ n * (b - a) \<and> (\<forall>k<n. t < phi ^ k * (b - a)) \<and>
           f1e = f (Fin (u - phi * (u - l))) \<and> f2e = f (Fin (l + phi * (u - l))) \<and>
           (\<forall>c \<in> set calls. in_interval a b c) \<and>
           \<not> (lt (Fin (real (Suc n))) (Fin m) \<and> gt (Fin (u - l)) (Fin t))"
  proof (rule golden_exact_invariant
      [where E = "\<lambda>n _ _. \<forall>k<n. t < phi ^ k * (b - a)", OF start ab])
    fix n l u :: real and j :: nat
    assume "u - l = phi ^ j * (b - a)" "\<forall>k<j. t < phi ^ k * (b - a)" "gt (Fin (u - l)) (Fin t)"
    then show "\<forall>k<Suc j. t < phi ^ k * (b - a)"
      by (auto simp: less_Suc_eq)
  next
    fix n l u :: real and j :: nat
    assume "u - l = phi ^ j * (b - a)" "\<forall>k<j. t < phi ^ k * (b - a)" "gt (Fin (u - l)) (Fin t)"
    then show "\<forall>k<Suc j. t < phi ^ k * (b - a)"
      by (auto simp: less_Suc_eq)
  qed simp
  then obtain n where n: "it = Suc n" "\<forall>k<n. t < phi ^ k * (b - a)" by blast
  have "n \<le> N"
  proof (rule ccontr)
    assume "\<not> n \<le> N"
    then have "t < phi ^ N * (b - a)" using n(2) by simp
    with small show False by simp
  qed
  then have "real it < m" using cap n(1) by simp
  with start show ?thesis by auto
qed

lemma second_probe: "1 - phi + phi * phi = 2 - 2 * phi"
  using phi_sq by simp

subsection \<open>The boundary correction\<close>

lemma descending_pass_eval:
  "golden_start exact descending (Fin (7 / 10)) (Fin 100) (Fin 0) (Fin 1) =
     Some (2, Fin (1 - phi), Fin 1, Fin (- phi), Fin (- (2 - 2 * phi)),
           [Fin (1 - phi), Fin phi, Fin 0, Fin 1, Fin (2 - 2 * phi)])"
proof -
  have w: "\<not> 7 / 10 < phi" using phi_bounds(2) by simp
  have pp: "\<bar>phi\<bar> = phi" using phi_pos by simp
  have pass2: "golden_loop exact descending (Fin (7 / 10)) (Fin 100) (Suc 0) (Fin (1 - phi)) (Fin 1)
      x1 x2 f1 f2 calls = Some (2, Fin (1 - phi), Fin 1, f1, f2, calls)" for x1 x2 f1 f2 calls
    using w by (subst golden_loop.simps) (simp add: pp)
  show ?thesis
    apply (simp add: golden_start_def probe1_def probe2_def)
    apply (subst golden_loop.simps)
    using phi_bounds
    apply (simp add: descending_def Let_def pass2 second_probe)
    done
qed

lemma step_overflow_general:
  assumes P: "PHI_RATIO rnd = Fin P" "0 < P" and top: "rnd (2 * M) = PInf"
    and z: "rnd 0 = Fin 0" and M: "0 < M"
  shows "goldenSectionMinimize rnd step_down (Fin (- M)) (Fin M) (Fin 1) (Fin 100)
       (Some blank_status) =
     Some (NaN, Some \<lparr>iterations = 4, argmin = NaN, minimum = Fin 0, converged = True\<rparr>,
           [NInf, PInf, Fin (- M), Fin M, NaN, NaN, NaN])"
proof -
  have pn: "P \<noteq> 0" "\<not> P < 0" using P(2) by simp_all
  note P1 = P(1) and P2 = P(2)
  have p1: "sub rnd (Fin M) (mul rnd (PHI_RATIO rnd) (sub rnd (Fin M) (Fin (- M)))) = NInf"
    by (simp add: P1 P2 top pn sub_def)
  have p2: "add rnd (Fin (- M)) (mul rnd (PHI_RATIO rnd) (sub rnd (Fin M) (Fin (- M)))) = PInf"
    by (simp add: P1 P2 top pn sub_def)
  have s1: "step_down NInf = Fin 1" "step_down PInf = Fin 0" "step_down NaN = Fin 0"
    "step_down (Fin (- M)) = Fin 1" "step_down (Fin M) = Fin 0"
    using M by (simp_all add: step_down_def)
  have l4: "golden_loop rnd step_down (Fin 1) (Fin 100) (Suc (Suc (Suc 0))) NaN (Fin M) NaN NaN
      (Fin 0) (Fin 0) cs = Some (4, NaN, Fin M, Fin 0, Fin 0, cs)" for cs
    by (subst golden_loop.simps) (simp add: Let_def)
  have l3: "golden_loop rnd step_down (Fin 1) (Fin 100) (Suc (Suc 0)) PInf (Fin M) NaN NaN
      (Fin 0) (Fin 0) cs = Some (4, NaN, Fin M, Fin 0, Fin 0, cs @ [NaN])" for cs
    by (subst golden_loop.simps) (simp add: Let_def sub_def s1 l4 gt_def)
  have l2: "golden_loop rnd step_down (Fin 1) (Fin 100) (Suc 0) NInf (Fin M) PInf NaN
      (Fin 0) (Fin 0) cs = Some (4, NaN, Fin M, Fin 0, Fin 0, cs @ [NaN, NaN])" for cs
    by (subst golden_loop.simps) (simp add: Let_def sub_def s1 l3 gt_def P1 P2 pn)
  have l1: "golden_loop rnd step_down (Fin 1) (Fin 100) 0 (Fin (- M)) (Fin M) NInf PInf
      (Fin 1) (Fin 0) cs = Some (4, NaN, Fin M, Fin 0, Fin 0, cs @ [NaN, NaN, NaN])" for cs
    by (subst golden_loop.simps) (simp add: Let_def sub_def s1 l2 gt_def P1 P2 pn top)
  show ?thesis
    unfolding goldenSectionMinimize_def Let_def p1 p2 s1 l1
    by (simp add: golden_finish_def z blank_status_def s1)
qed





section \<open>Convergence on a function with one minimum\<close>

text \<open>
  The refiner computes a probe afresh on each pass and keeps the other one. In an
  arithmetic whose results are within \<open>e\<close> of the exact ones, with a constant
  \<^verbatim>\<open>PHI_RATIO\<close> within \<open>dP\<close> of \<open>phi\<close>, a fresh probe is within
  \<open>3 e + dP (xU - xL)\<close> of the golden section of the interval, and the distance of the
  kept probe from its golden section grows by at most that of the fresh one from pass to
  pass. While the width is above the tolerance, which is far above these distances, the
  probes stay in order inside the interval, and a function that tells the side of its
  minimum keeps the minimum between the two ends.
\<close>

lemma phi_gt_06: "6 / 10 < phi"
proof -
  have "sqrt 5 < 23 / 10" by (rule real_less_lsqrt) (simp_all add: power2_eq_square)
  then show ?thesis
    unfolding phi_def using sqrt5_bounds by (simp add: field_simps)
qed

lemma reuse_left:
  "p - (l + phi * (q - l)) = (p - (u - phi * (u - l))) - phi * (q - (l + phi * (u - l)))"
proof -
  have "phi * (phi * (u - l)) = (1 - phi) * (u - l)"
    using phi_sq by (simp add: mult.assoc [symmetric])
  then show ?thesis by (simp add: algebra_simps)
qed

lemma reuse_right:
  "q - (u - phi * (u - p)) = (q - (l + phi * (u - l))) - phi * (p - (u - phi * (u - l)))"
proof -
  have "phi * (phi * (u - l)) = (1 - phi) * (u - l)"
    using phi_sq by (simp add: mult.assoc [symmetric])
  then show ?thesis by (simp add: algebra_simps)
qed

lemma fresh_probe:
  fixes l uu M R e P dP :: real
  assumes acc0: "\<forall>x. \<bar>x\<bar> \<le> R \<longrightarrow> (\<exists>y. rnd x = Fin y \<and> \<bar>y - x\<bar> \<le> e)"
    and e0: "0 \<le> e"
    and P: "PHI_RATIO rnd = Fin P" and dP: "\<bar>P - phi\<bar> \<le> dP" "dP \<le> 1 / 4"
    and rng: "\<bar>l\<bar> \<le> M" "\<bar>uu\<bar> \<le> M" "3 * M + 2 * e \<le> R"
  shows "\<exists>p. sub rnd (Fin uu) (mul rnd (PHI_RATIO rnd) (sub rnd (Fin uu) (Fin l))) = Fin p \<and>
           \<bar>p - (uu - phi * (uu - l))\<bar> \<le> 3 * e + dP * \<bar>uu - l\<bar>"
    and "\<exists>q. add rnd (Fin l) (mul rnd (PHI_RATIO rnd) (sub rnd (Fin uu) (Fin l))) = Fin q \<and>
           \<bar>q - (l + phi * (uu - l))\<bar> \<le> 3 * e + dP * \<bar>uu - l\<bar>"
proof -
  have acc: "\<And>x. \<bar>x\<bar> \<le> R \<Longrightarrow> \<exists>y. rnd x = Fin y \<and> \<bar>y - x\<bar> \<le> e"
    using acc0 by blast
  have M0: "0 \<le> M" using rng(1) by simp
  have "\<bar>uu - l\<bar> \<le> R" using rng e0 by simp
  from acc [OF this] obtain d where d: "rnd (uu - l) = Fin d" "\<bar>d - (uu - l)\<bar> \<le> e" by blast
  have dm: "\<bar>d\<bar> \<le> 2 * M + e" using d(2) rng by simp
  have P1: "\<bar>P\<bar> \<le> 1" using dP phi_bounds by simp
  have "\<bar>P * d\<bar> \<le> 1 * (2 * M + e)"
    unfolding abs_mult using P1 dm by (intro mult_mono) simp_all
  then have pd: "\<bar>P * d\<bar> \<le> 2 * M + e" by simp
  then have "\<bar>P * d\<bar> \<le> R" using rng M0 e0 by simp
  from acc [OF this] obtain m where m: "rnd (P * d) = Fin m" "\<bar>m - P * d\<bar> \<le> e" by blast
  have mm: "\<bar>m\<bar> \<le> 2 * M + 2 * e" using m(2) pd by simp
  have "\<bar>P * (d - (uu - l))\<bar> \<le> 1 * e"
    unfolding abs_mult using P1 d(2) by (intro mult_mono) simp_all
  then have t1: "\<bar>P * (d - (uu - l))\<bar> \<le> e" by simp
  have "\<bar>(P - phi) * (uu - l)\<bar> \<le> dP * \<bar>uu - l\<bar>"
    unfolding abs_mult using dP(1) by (intro mult_right_mono) simp_all
  moreover have "P * d - phi * (uu - l) = P * (d - (uu - l)) + (P - phi) * (uu - l)"
    by (simp add: algebra_simps)
  ultimately have t2: "\<bar>P * d - phi * (uu - l)\<bar> \<le> e + dP * \<bar>uu - l\<bar>"
    using t1 by simp
  have "\<bar>uu - m\<bar> \<le> R" using mm rng by simp
  from acc [OF this] obtain p where p: "rnd (uu - m) = Fin p" "\<bar>p - (uu - m)\<bar> \<le> e" by blast
  have "\<bar>p - (uu - phi * (uu - l))\<bar> \<le> 3 * e + dP * \<bar>uu - l\<bar>"
    using p(2) m(2) t2 by simp
  then show "\<exists>p. sub rnd (Fin uu) (mul rnd (PHI_RATIO rnd) (sub rnd (Fin uu) (Fin l))) = Fin p \<and>
           \<bar>p - (uu - phi * (uu - l))\<bar> \<le> 3 * e + dP * \<bar>uu - l\<bar>"
    by (simp add: P d(1) m(1) p(1))
  have "\<bar>l + m\<bar> \<le> R" using mm rng by simp
  from acc [OF this] obtain q where q: "rnd (l + m) = Fin q" "\<bar>q - (l + m)\<bar> \<le> e" by blast
  have "\<bar>q - (l + phi * (uu - l))\<bar> \<le> 3 * e + dP * \<bar>uu - l\<bar>"
    using q(2) m(2) t2 by simp
  then show "\<exists>q. add rnd (Fin l) (mul rnd (PHI_RATIO rnd) (sub rnd (Fin uu) (Fin l))) = Fin q \<and>
           \<bar>q - (l + phi * (uu - l))\<bar> \<le> 3 * e + dP * \<bar>uu - l\<bar>"
    by (simp add: P d(1) m(1) q(1))
qed

lemma phi_scale:
  assumes "0 \<le> w"
  shows "6 / 10 * w \<le> phi * w" "phi * w \<le> 62 / 100 * w"
proof -
  show "6 / 10 * w \<le> phi * w"
    using less_imp_le [OF phi_gt_06] assms by (rule mult_right_mono)
  show "phi * w \<le> 62 / 100 * w"
    using less_imp_le [OF phi_bounds(2)] assms by (rule mult_right_mono)
qed

lemma budget_facts:
  fixes F t :: real
  assumes "0 \<le> F" "real (N + 2) * F \<le> t / 20" "n \<le> N"
  shows "real (n + 2) * F \<le> t / 20" "F \<le> t / 40" "3 * (real n * F) \<le> 3 * t / 20" "0 \<le> t"
    "0 \<le> real n * F"
proof -
  have a: "real (n + 2) * F \<le> real (N + 2) * F"
    using assms(1,3) by (intro mult_right_mono) simp_all
  with assms(2) show "real (n + 2) * F \<le> t / 20" by linarith
  have "2 * F \<le> real (N + 2) * F"
    using assms(1) by (intro mult_right_mono) simp_all
  with assms(2) show "F \<le> t / 40" by linarith
  have "real n * F \<le> real (N + 2) * F"
    using assms(1,3) by (intro mult_right_mono) simp_all
  with assms(2) show "3 * (real n * F) \<le> 3 * t / 20" by linarith
  have "0 \<le> real (N + 2) * F" using assms(1) by simp
  with assms(2) show "0 \<le> t" by linarith
  show "0 \<le> real n * F" using assms(1) by simp
qed

lemma probes_apart:
  fixes a b xs F t e l uu p q :: real
  assumes J: "near_golden a b xs F N n l uu p q"
    and F: "0 \<le> e" "e \<le> F" "real (N + 2) * F \<le> t / 20"
    and small: "phi ^ N * (b - a) \<le> t / 2"
    and guard: "t - e < uu - l"
  shows "p + t / 10 < q" "l \<le> p" "q \<le> uu" "n < N"
    "t / 2 < q - l" "t / 2 < uu - p"
proof -
  define w where "w = uu - l"
  define ep where "ep = p - (uu - phi * w)"
  define eq where "eq = q - (l + phi * w)"
  from J have n: "n \<le> N" and S: "\<bar>ep\<bar> + \<bar>eq\<bar> \<le> real (n + 2) * F"
    and W: "w \<le> phi ^ n * (b - a) + 3 * (real n * F)" and lu: "l \<le> uu"
    by (simp_all add: near_golden_def w_def ep_def eq_def)
  have F0: "0 \<le> F" using F by simp
  note bf = budget_facts [OF F0 F(3) n]
  have w1: "39 / 40 * t < w" using guard F(2) bf(2) unfolding w_def by linarith
  have w0: "0 \<le> w" using lu by (simp add: w_def)
  note ps = phi_scale [OF w0]
  have S20: "\<bar>ep\<bar> + \<bar>eq\<bar> \<le> t / 20" using S bf(1) by linarith
  have p: "p = uu - phi * w + ep" and q: "q = l + phi * w + eq"
    by (simp_all add: ep_def eq_def)
  have uw: "uu = l + w" by (simp add: w_def)
  show "p + t / 10 < q" using p q uw ps S20 w1 bf(4) by linarith
  show "l \<le> p" using p uw ps S20 w1 bf(4) by linarith
  show "q \<le> uu" using q uw ps S20 w1 bf(4) by linarith
  show "t / 2 < q - l" using q ps S20 w1 bf(4) by linarith
  show "t / 2 < uu - p" using p ps S20 w1 bf(4) by linarith
  show "n < N"
  proof (rule ccontr)
    assume "\<not> n < N"
    with n have "n = N" by simp
    with W have "w \<le> phi ^ N * (b - a) + 3 * (real n * F)" by simp
    with small bf(3) w1 bf(4) show False by linarith
  qed
qed

lemma shrink:
  fixes A X w :: real
  assumes W: "w \<le> phi ^ n * ba + 3 * X" and X: "0 \<le> X"
  shows "phi * w \<le> phi ^ Suc n * ba + 2 * X"
proof -
  have "phi * w \<le> phi * (phi ^ n * ba + 3 * X)"
    using W phi_pos by (intro mult_left_mono) simp_all
  moreover have "phi * (3 * X) \<le> 62 / 100 * (3 * X)"
    using X by (intro phi_scale) simp
  moreover have "phi * (phi ^ n * ba + 3 * X) = phi ^ Suc n * ba + phi * (3 * X)"
    by (simp add: algebra_simps)
  ultimately show ?thesis using X by linarith
qed

lemma pass_left:
  fixes a b xs F t e l uu p q p' :: real
  assumes J: "near_golden a b xs F N n l uu p q"
    and F: "0 \<le> e" "e \<le> F" "real (N + 2) * F \<le> t / 20"
    and small: "phi ^ N * (b - a) \<le> t / 2"
    and guard: "t - e < uu - l"
    and decision: "xs \<le> q"
    and fresh: "\<bar>p' - (q - phi * (q - l))\<bar> \<le> F"
  shows "near_golden a b xs F N (Suc n) l q p' p"
proof -
  note pa = probes_apart [OF J F small guard]
  define w where "w = uu - l"
  define ep where "ep = p - (uu - phi * w)"
  define eq where "eq = q - (l + phi * w)"
  from J have n: "n \<le> N" and S: "\<bar>ep\<bar> + \<bar>eq\<bar> \<le> real (n + 2) * F"
    and W: "w \<le> phi ^ n * (b - a) + 3 * (real n * F)" and lu: "l \<le> uu"
    and J': "a \<le> l" "l \<le> xs" "uu \<le> b" "a \<le> p" "p \<le> b" "a \<le> q" "q \<le> b"
    by (simp_all add: near_golden_def w_def ep_def eq_def)
  have F0: "0 \<le> F" using F by simp
  note bf = budget_facts [OF F0 F(3) n]
  define w' where "w' = q - l"
  have w'1: "t / 2 < w'" using pa(5) by (simp add: w'_def)
  have w'0: "0 \<le> w'" using w'1 bf(4) by simp
  note ps = phi_scale [OF w'0]
  have fr: "\<bar>p' - (q - phi * w')\<bar> \<le> F" using fresh by (simp add: w'_def)
  have qw: "q = l + w'" by (simp add: w'_def)
  have p'a: "a \<le> p'" using fr ps w'1 bf(2,4) J' qw by linarith
  have p'b: "p' \<le> b" using fr ps w'1 bf(2,4) J' qw by linarith
  have "\<bar>phi * eq\<bar> \<le> 1 * \<bar>eq\<bar>"
    unfolding abs_mult using phi_pos phi_lt_1 by (intro mult_right_mono) simp_all
  moreover have "p - (l + phi * (q - l)) = ep - phi * eq"
    unfolding ep_def eq_def w_def by (rule reuse_left)
  ultimately have r: "\<bar>p - (l + phi * (q - l))\<bar> \<le> \<bar>ep\<bar> + \<bar>eq\<bar>" by linarith
  define X where "X = real n * F"
  have S': "\<bar>ep\<bar> + \<bar>eq\<bar> \<le> X + 2 * F" using S by (simp add: X_def algebra_simps)
  have "\<bar>p' - (q - phi * (q - l))\<bar> + \<bar>p - (l + phi * (q - l))\<bar> \<le> X + 3 * F"
    using r S' fresh by linarith
  then have err: "\<bar>p' - (q - phi * (q - l))\<bar> + \<bar>p - (l + phi * (q - l))\<bar> \<le> real (Suc n + 2) * F"
    by (simp add: X_def algebra_simps)
  define A where "A = phi ^ Suc n * (b - a)"
  have d1: "q - l = phi * w + eq" by (simp add: ep_def eq_def w_def)
  have d2: "phi * w \<le> A + 2 * X"
    unfolding X_def A_def by (rule shrink [OF W bf(5)])
  have d3: "eq \<le> X + 2 * F" using S' by linarith
  have "q - l \<le> A + 3 * X + 3 * F"
    using d1 d2 d3 F0 by linarith
  then have width: "q - l \<le> phi ^ Suc n * (b - a) + 3 * (real (Suc n) * F)"
    by (simp add: X_def A_def algebra_simps)
  show ?thesis
    unfolding near_golden_def
    using J' decision p'a p'b err width pa(4) by simp
qed

lemma pass_right:
  fixes a b xs F t e l uu p q q' :: real
  assumes J: "near_golden a b xs F N n l uu p q"
    and F: "0 \<le> e" "e \<le> F" "real (N + 2) * F \<le> t / 20"
    and small: "phi ^ N * (b - a) \<le> t / 2"
    and guard: "t - e < uu - l"
    and decision: "p \<le> xs"
    and fresh: "\<bar>q' - (p + phi * (uu - p))\<bar> \<le> F"
  shows "near_golden a b xs F N (Suc n) p uu q q'"
proof -
  note pa = probes_apart [OF J F small guard]
  define w where "w = uu - l"
  define ep where "ep = p - (uu - phi * w)"
  define eq where "eq = q - (l + phi * w)"
  from J have n: "n \<le> N" and S: "\<bar>ep\<bar> + \<bar>eq\<bar> \<le> real (n + 2) * F"
    and W: "w \<le> phi ^ n * (b - a) + 3 * (real n * F)" and lu: "l \<le> uu"
    and J': "a \<le> l" "xs \<le> uu" "uu \<le> b" "a \<le> p" "p \<le> b" "a \<le> q" "q \<le> b"
    by (simp_all add: near_golden_def w_def ep_def eq_def)
  have F0: "0 \<le> F" using F by simp
  note bf = budget_facts [OF F0 F(3) n]
  define w' where "w' = uu - p"
  have w'1: "t / 2 < w'" using pa(6) by (simp add: w'_def)
  have w'0: "0 \<le> w'" using w'1 bf(4) by simp
  note ps = phi_scale [OF w'0]
  have fr: "\<bar>q' - (p + phi * w')\<bar> \<le> F" using fresh by (simp add: w'_def)
  have uw: "uu = p + w'" by (simp add: w'_def)
  have q'a: "a \<le> q'" using fr ps w'1 bf(2,4) J' uw by linarith
  have q'b: "q' \<le> b" using fr ps w'1 bf(2,4) J' uw by linarith
  have "\<bar>phi * ep\<bar> \<le> 1 * \<bar>ep\<bar>"
    unfolding abs_mult using phi_pos phi_lt_1 by (intro mult_right_mono) simp_all
  moreover have "q - (uu - phi * (uu - p)) = eq - phi * ep"
    unfolding ep_def eq_def w_def by (rule reuse_right)
  ultimately have r: "\<bar>q - (uu - phi * (uu - p))\<bar> \<le> \<bar>ep\<bar> + \<bar>eq\<bar>" by linarith
  define X where "X = real n * F"
  have S': "\<bar>ep\<bar> + \<bar>eq\<bar> \<le> X + 2 * F" using S by (simp add: X_def algebra_simps)
  have "\<bar>q - (uu - phi * (uu - p))\<bar> + \<bar>q' - (p + phi * (uu - p))\<bar> \<le> X + 3 * F"
    using r S' fresh by linarith
  then have err: "\<bar>q - (uu - phi * (uu - p))\<bar> + \<bar>q' - (p + phi * (uu - p))\<bar> \<le> real (Suc n + 2) * F"
    by (simp add: X_def algebra_simps)
  define A where "A = phi ^ Suc n * (b - a)"
  have d1: "uu - p = phi * w - ep" by (simp add: ep_def eq_def w_def)
  have d2: "phi * w \<le> A + 2 * X"
    unfolding X_def A_def by (rule shrink [OF W bf(5)])
  have d3: "- ep \<le> X + 2 * F" using S' by linarith
  have "uu - p \<le> A + 3 * X + 3 * F"
    using d1 d2 d3 F0 by linarith
  then have width: "uu - p \<le> phi ^ Suc n * (b - a) + 3 * (real (Suc n) * F)"
    by (simp add: X_def A_def algebra_simps)
  show ?thesis
    unfolding near_golden_def
    using J' decision q'a q'b err width pa(4) by simp
qed

lemma width_guard:
  fixes l uu e t R :: real
  assumes acc0: "\<forall>x. \<bar>x\<bar> \<le> R \<longrightarrow> (\<exists>y. rnd x = Fin y \<and> \<bar>y - x\<bar> \<le> e)"
    and lu: "l \<le> uu" and rng: "\<bar>uu - l\<bar> \<le> R"
  shows "gt (Math_abs (sub rnd (Fin uu) (Fin l))) (Fin t) \<Longrightarrow> t - e < uu - l"
    and "\<not> gt (Math_abs (sub rnd (Fin uu) (Fin l))) (Fin t) \<Longrightarrow> uu - l \<le> t + e"
proof -
  have acc: "\<And>x. \<bar>x\<bar> \<le> R \<Longrightarrow> \<exists>y. rnd x = Fin y \<and> \<bar>y - x\<bar> \<le> e"
    using acc0 by blast
  from acc [OF rng] obtain c where c: "rnd (uu - l) = Fin c" "\<bar>c - (uu - l)\<bar> \<le> e" by blast
  show "gt (Math_abs (sub rnd (Fin uu) (Fin l))) (Fin t) \<Longrightarrow> t - e < uu - l"
    using c lu by (simp add: abs_le_iff) linarith
  show "\<not> gt (Math_abs (sub rnd (Fin uu) (Fin l))) (Fin t) \<Longrightarrow> uu - l \<le> t + e"
    using c lu by (simp add: abs_le_iff) linarith
qed

lemma golden_rounded_run:
  fixes a b xs t m e F P dP M R :: real
  assumes acc0: "\<forall>x. \<bar>x\<bar> \<le> R \<longrightarrow> (\<exists>y. rnd x = Fin y \<and> \<bar>y - x\<bar> \<le> e)"
    and e0: "0 \<le> e" and eF: "3 * e + dP * (b - a) \<le> F"
    and P: "PHI_RATIO rnd = Fin P" and dP: "\<bar>P - phi\<bar> \<le> dP" "dP \<le> 1 / 4"
    and rng: "\<bar>a\<bar> \<le> M" "\<bar>b\<bar> \<le> M" "3 * M + 2 * e \<le> R"
    and xs: "a \<le> xs" "xs \<le> b"
    and wide: "t \<le> b - a"
    and budget: "real (N + 2) * F \<le> t / 20" "phi ^ N * (b - a) \<le> t / 2" "real (N + 1) < m"
    and S20: "\<forall>p q. a \<le> p \<and> p + t / 10 < q \<and> q \<le> b \<and>
           gt (f (Fin q)) (f (Fin p)) \<longrightarrow> xs \<le> q"
    and S30: "\<forall>p q. a \<le> p \<and> p + t / 10 < q \<and> q \<le> b \<and>
           \<not> gt (f (Fin q)) (f (Fin p)) \<longrightarrow> p \<le> xs"
  shows "\<exists>n l uu p q calls.
     golden_start rnd f (Fin t) (Fin m) (Fin a) (Fin b) =
       Some (Suc n, Fin l, Fin uu, f (Fin p), f (Fin q), calls) \<and>
     near_golden a b xs F N n l uu p q \<and> uu - l \<le> t + e"
proof -
  have acc: "\<And>x. \<bar>x\<bar> \<le> R \<Longrightarrow> \<exists>y. rnd x = Fin y \<and> \<bar>y - x\<bar> \<le> e"
    using acc0 by blast
  have S2: "\<And>p q. a \<le> p \<Longrightarrow> p + t / 10 < q \<Longrightarrow> q \<le> b \<Longrightarrow>
           gt (f (Fin q)) (f (Fin p)) \<Longrightarrow> xs \<le> q"
    using S20 by blast
  have S3: "\<And>p q. a \<le> p \<Longrightarrow> p + t / 10 < q \<Longrightarrow> q \<le> b \<Longrightarrow>
           \<not> gt (f (Fin q)) (f (Fin p)) \<Longrightarrow> p \<le> xs"
    using S30 by blast
  have ab: "a \<le> b" using xs by simp
  have dP0: "0 \<le> dP" using dP(1) by simp
  have "0 \<le> dP * (b - a)" using dP0 ab by simp
  with eF e0 have eleF: "e \<le> F" and F0: "0 \<le> F" by linarith+
  note Fs = e0 eleF budget(1)
  have inM: "\<bar>x\<bar> \<le> M" if "a \<le> x" "x \<le> b" for x
    using that rng by (simp add: abs_le_iff)
  have M0: "0 \<le> M" using rng(1) by simp
  have inR: "\<bar>y - x\<bar> \<le> R" if "a \<le> x" "x \<le> b" "a \<le> y" "y \<le> b" for x y
    using inM [OF that(1,2)] inM [OF that(3,4)] rng(3) e0 M0 by (simp add: abs_le_iff)
  have frF: "3 * e + dP * \<bar>y - x\<bar> \<le> F" if "a \<le> x" "x \<le> y" "y \<le> b" for x y
  proof -
    have "dP * \<bar>y - x\<bar> \<le> dP * (b - a)"
      using that dP0 by (intro mult_left_mono) simp_all
    with eF show ?thesis by linarith
  qed
  define I where "I = (\<lambda>(n::nat) xL xU x1 x2 f1 f2 (cs::number list).
      \<exists>l uu p q. xL = Fin l \<and> xU = Fin uu \<and> x1 = Fin p \<and> x2 = Fin q \<and>
        f1 = f (Fin p) \<and> f2 = f (Fin q) \<and> near_golden a b xs F N n l uu p q)"
  obtain k where "\<not> lt (Fin (real k)) (Fin m)"
    using cap_exists [of "Fin m"] by auto
  from golden_loop_terminates [OF this]
  have "golden_start rnd f (Fin t) (Fin m) (Fin a) (Fin b) \<noteq> None"
    unfolding golden_start_def .
  then obtain r where run: "golden_start rnd f (Fin t) (Fin m) (Fin a) (Fin b) = Some r"
    by auto
  from fresh_probe [OF acc0 e0 P dP rng] obtain p0 q0 where
    p0: "probe1 rnd (Fin a) (Fin b) = Fin p0" "\<bar>p0 - (b - phi * (b - a))\<bar> \<le> 3 * e + dP * \<bar>b - a\<bar>"
    and q0: "probe2 rnd (Fin a) (Fin b) = Fin q0" "\<bar>q0 - (a + phi * (b - a))\<bar> \<le> 3 * e + dP * \<bar>b - a\<bar>"
    unfolding probe1_def probe2_def by blast
  have p0F: "\<bar>p0 - (b - phi * (b - a))\<bar> \<le> F" and q0F: "\<bar>q0 - (a + phi * (b - a))\<bar> \<le> F"
    using p0(2) q0(2) frF [of a b] ab by simp_all
  have I0: "I 0 (Fin a) (Fin b) (probe1 rnd (Fin a) (Fin b)) (probe2 rnd (Fin a) (Fin b))
      (f (probe1 rnd (Fin a) (Fin b))) (f (probe2 rnd (Fin a) (Fin b)))
      [probe1 rnd (Fin a) (Fin b), probe2 rnd (Fin a) (Fin b), Fin a, Fin b]"
  proof -
    define w where "w = b - a"
    have w0: "0 \<le> w" using ab by (simp add: w_def)
    note ps = phi_scale [OF w0]
    note bf = budget_facts [OF F0 budget(1) le0 [of N]]
    have bw: "b = a + w" by (simp add: w_def)
    have tw: "t \<le> w" using wide by (simp add: w_def)
    have pw: "\<bar>p0 - (b - phi * w)\<bar> \<le> F" and qw: "\<bar>q0 - (a + phi * w)\<bar> \<le> F"
      using p0F q0F by (simp_all add: w_def)
    have "a \<le> p0" using pw ps bf(2,4) tw bw by linarith
    moreover have "p0 \<le> b" using pw ps bf(2,4) tw bw by linarith
    moreover have "a \<le> q0" using qw ps bf(2,4) tw bw by linarith
    moreover have "q0 \<le> b" using qw ps bf(2,4) tw bw by linarith
    moreover have "\<bar>p0 - (b - phi * (b - a))\<bar> + \<bar>q0 - (a + phi * (b - a))\<bar> \<le> real (0 + 2) * F"
      using p0F q0F by simp
    ultimately have "near_golden a b xs F N 0 a b p0 q0"
      unfolding near_golden_def using xs by simp
    then show ?thesis unfolding I_def p0(1) q0(1) by blast
  qed
  have "\<exists>it' xL' xU' x1' x2' f1' f2' calls'.
           r = (Suc it', xL', xU', f1', f2', calls') \<and> I it' xL' xU' x1' x2' f1' f2' calls' \<and>
           \<not> (lt (Fin (real (Suc it'))) (Fin m) \<and> gt (Math_abs (sub rnd xU' xL')) (Fin t))"
  proof (rule golden_loop_rule [where I = I, OF run [unfolded golden_start_def] I0])
    fix it xL xU x1 x2 f1 f2 and calls :: "number list"
    assume inv: "I it xL xU x1 x2 f1 f2 calls"
      and g: "gt (Math_abs (sub rnd xU xL)) (Fin t)" and d: "gt f2 f1"
    from inv obtain l uu p q where s: "xL = Fin l" "xU = Fin uu" "x1 = Fin p" "x2 = Fin q"
        "f1 = f (Fin p)" "f2 = f (Fin q)" and J: "near_golden a b xs F N it l uu p q"
      unfolding I_def by blast
    from J have J': "a \<le> l" "l \<le> xs" "xs \<le> uu" "uu \<le> b" "a \<le> p" "p \<le> b" "a \<le> q" "q \<le> b"
      by (simp_all add: near_golden_def)
    have lu: "l \<le> uu" using J' by simp
    have guard: "t - e < uu - l"
      using width_guard(1) [OF acc0 lu inR] J' lu g unfolding s by simp
    note pa = probes_apart [OF J Fs budget(2) guard]
    have dec: "xs \<le> q" using S2 [OF J'(5) pa(1) J'(8)] d unfolding s by simp
    have lq: "l \<le> q" using pa(2) pa(1) budget_facts(4) [OF F0 budget(1) le0 [of N]] by linarith
    from fresh_probe(1) [OF acc0 e0 P dP inM inM rng(3), of l q] J' lq
    obtain p' where p': "sub rnd (Fin q) (mul rnd (PHI_RATIO rnd) (sub rnd (Fin q) (Fin l))) = Fin p'"
        "\<bar>p' - (q - phi * (q - l))\<bar> \<le> 3 * e + dP * \<bar>q - l\<bar>"
      by auto
    have "\<bar>p' - (q - phi * (q - l))\<bar> \<le> F"
      using p'(2) frF [of l q] J' lq by simp
    from pass_left [OF J Fs budget(2) guard dec this]
    show "I (Suc it) xL x2 (sub rnd x2 (mul rnd (PHI_RATIO rnd) (sub rnd x2 xL))) x1
         (f (sub rnd x2 (mul rnd (PHI_RATIO rnd) (sub rnd x2 xL)))) f1
         (calls @ [sub rnd x2 (mul rnd (PHI_RATIO rnd) (sub rnd x2 xL))])"
      unfolding I_def s p'(1) by blast
  next
    fix it xL xU x1 x2 f1 f2 and calls :: "number list"
    assume inv: "I it xL xU x1 x2 f1 f2 calls"
      and g: "gt (Math_abs (sub rnd xU xL)) (Fin t)" and d: "\<not> gt f2 f1"
    from inv obtain l uu p q where s: "xL = Fin l" "xU = Fin uu" "x1 = Fin p" "x2 = Fin q"
        "f1 = f (Fin p)" "f2 = f (Fin q)" and J: "near_golden a b xs F N it l uu p q"
      unfolding I_def by blast
    from J have J': "a \<le> l" "l \<le> xs" "xs \<le> uu" "uu \<le> b" "a \<le> p" "p \<le> b" "a \<le> q" "q \<le> b"
      by (simp_all add: near_golden_def)
    have lu: "l \<le> uu" using J' by simp
    have guard: "t - e < uu - l"
      using width_guard(1) [OF acc0 lu inR] J' lu g unfolding s by simp
    note pa = probes_apart [OF J Fs budget(2) guard]
    have dec: "p \<le> xs" using S3 [OF J'(5) pa(1) J'(8)] d unfolding s by simp
    have pu: "p \<le> uu" using pa(3) pa(1) budget_facts(4) [OF F0 budget(1) le0 [of N]] by linarith
    from fresh_probe(2) [OF acc0 e0 P dP inM inM rng(3), of p uu] J' pu
    obtain q' where q': "add rnd (Fin p) (mul rnd (PHI_RATIO rnd) (sub rnd (Fin uu) (Fin p))) = Fin q'"
        "\<bar>q' - (p + phi * (uu - p))\<bar> \<le> 3 * e + dP * \<bar>uu - p\<bar>"
      by auto
    have "\<bar>q' - (p + phi * (uu - p))\<bar> \<le> F"
      using q'(2) frF [of p uu] J' pu by simp
    from pass_right [OF J Fs budget(2) guard dec this]
    show "I (Suc it) x1 xU x2 (add rnd x1 (mul rnd (PHI_RATIO rnd) (sub rnd xU x1)))
         f2 (f (add rnd x1 (mul rnd (PHI_RATIO rnd) (sub rnd xU x1))))
         (calls @ [add rnd x1 (mul rnd (PHI_RATIO rnd) (sub rnd xU x1))])"
      unfolding I_def s q'(1) by blast
  qed
  then obtain n l uu p q calls where r: "r = (Suc n, Fin l, Fin uu, f (Fin p), f (Fin q), calls)"
    and J: "near_golden a b xs F N n l uu p q"
    and ex: "\<not> (lt (Fin (real (Suc n))) (Fin m) \<and> gt (Math_abs (sub rnd (Fin uu) (Fin l))) (Fin t))"
    unfolding I_def by blast
  from J have J': "a \<le> l" "l \<le> xs" "xs \<le> uu" "uu \<le> b" and n: "n \<le> N"
    by (simp_all add: near_golden_def)
  have "real (Suc n) < m" using n budget(3) by simp
  with ex have ng: "\<not> gt (Math_abs (sub rnd (Fin uu) (Fin l))) (Fin t)" by simp
  have lu: "l \<le> uu" using J' by simp
  have "uu - l \<le> t + e"
    using width_guard(2) [OF acc0 lu inR ng] J' lu by simp
  with run r J show ?thesis by blast
qed

lemma half_sum_rounded:
  fixes x y e R :: real
  assumes acc0: "\<forall>x. \<bar>x\<bar> \<le> R \<longrightarrow> (\<exists>y. rnd x = Fin y \<and> \<bar>y - x\<bar> \<le> e)"
    and e0: "0 \<le> e" and rng: "\<bar>x\<bar> \<le> M" "\<bar>y\<bar> \<le> M" "3 * M + 2 * e \<le> R"
  shows "\<exists>z. half_sum rnd (Fin x) (Fin y) = Fin z \<and> \<bar>z - (x + y) / 2\<bar> \<le> 2 * e"
proof -
  have acc: "\<And>x. \<bar>x\<bar> \<le> R \<Longrightarrow> \<exists>y. rnd x = Fin y \<and> \<bar>y - x\<bar> \<le> e"
    using acc0 by blast
  have M0: "0 \<le> M" using rng(1) by simp
  have "\<bar>x + y\<bar> \<le> R" using rng e0 M0 by (simp add: abs_le_iff)
  from acc [OF this] obtain s where s: "rnd (x + y) = Fin s" "\<bar>s - (x + y)\<bar> \<le> e" by blast
  have "\<bar>1 / 2 * s\<bar> \<le> R" using s(2) rng e0 M0 by (simp add: abs_le_iff)
  from acc [OF this] obtain z where z: "rnd (1 / 2 * s) = Fin z" "\<bar>z - 1 / 2 * s\<bar> \<le> e" by blast
  have "\<bar>z - (x + y) / 2\<bar> \<le> 2 * e" using s(2) z(2) by argo
  with z(1) show ?thesis by (simp add: half_sum_def s(1))
qed

lemma refiner_rounded:
  fixes a b xs t m e F P dP M R :: real
  assumes acc0: "\<forall>x. \<bar>x\<bar> \<le> R \<longrightarrow> (\<exists>y. rnd x = Fin y \<and> \<bar>y - x\<bar> \<le> e)"
    and e0: "0 \<le> e" and eF: "3 * e + dP * (b - a) \<le> F"
    and P: "PHI_RATIO rnd = Fin P" and dP: "\<bar>P - phi\<bar> \<le> dP" "dP \<le> 1 / 4"
    and rng: "\<bar>a\<bar> \<le> M" "\<bar>b\<bar> \<le> M" "3 * M + 2 * e \<le> R"
    and xs: "a \<le> xs" "xs \<le> b"
    and wide: "t \<le> b - a"
    and budget: "real (N + 2) * F \<le> t / 20" "phi ^ N * (b - a) \<le> t / 2" "real (N + 1) < m"
    and S10: "\<forall>x. a \<le> x \<and> x \<le> b \<longrightarrow> \<not> isNaN (f (Fin x))"
    and S20: "\<forall>p q. a \<le> p \<and> p + t / 10 < q \<and> q \<le> b \<and>
           gt (f (Fin q)) (f (Fin p)) \<longrightarrow> xs \<le> q"
    and S30: "\<forall>p q. a \<le> p \<and> p + t / 10 < q \<and> q \<le> b \<and>
           \<not> gt (f (Fin q)) (f (Fin p)) \<longrightarrow> p \<le> xs"
  shows "\<exists>n xF p q calls.
     goldenSectionMinimize rnd f (Fin a) (Fin b) (Fin t) (Fin m) st =
       Some (if lt (f (Fin a)) (half_sum rnd (f (Fin p)) (f (Fin q))) then Fin a
             else if lt (f (Fin b)) (half_sum rnd (f (Fin p)) (f (Fin q))) then Fin b
             else Fin xF,
             map_option (\<lambda>s. s\<lparr>iterations := Suc n, argmin := Fin xF,
               minimum := half_sum rnd (f (Fin p)) (f (Fin q)), converged := True\<rparr>) st,
             calls) \<and>
     n \<le> N \<and> \<bar>xF - xs\<bar> \<le> t \<and> a \<le> p \<and> p \<le> b \<and> a \<le> q \<and> q \<le> b \<and>
     \<bar>p - xs\<bar> \<le> 2 * t \<and> \<bar>q - xs\<bar> \<le> 2 * t"
proof -
  have acc: "\<And>x. \<bar>x\<bar> \<le> R \<Longrightarrow> \<exists>y. rnd x = Fin y \<and> \<bar>y - x\<bar> \<le> e"
    using acc0 by blast
  have S1: "\<And>x. a \<le> x \<Longrightarrow> x \<le> b \<Longrightarrow> \<not> isNaN (f (Fin x))"
    using S10 by blast
  have S2: "\<And>p q. a \<le> p \<Longrightarrow> p + t / 10 < q \<Longrightarrow> q \<le> b \<Longrightarrow>
           gt (f (Fin q)) (f (Fin p)) \<Longrightarrow> xs \<le> q"
    using S20 by blast
  have S3: "\<And>p q. a \<le> p \<Longrightarrow> p + t / 10 < q \<Longrightarrow> q \<le> b \<Longrightarrow>
           \<not> gt (f (Fin q)) (f (Fin p)) \<Longrightarrow> p \<le> xs"
    using S30 by blast
  from golden_rounded_run [OF acc0 e0 eF P dP rng xs wide budget S20 S30]
  obtain n l uu p q calls where
    run: "golden_start rnd f (Fin t) (Fin m) (Fin a) (Fin b) =
       Some (Suc n, Fin l, Fin uu, f (Fin p), f (Fin q), calls)"
    and J: "near_golden a b xs F N n l uu p q" and width: "uu - l \<le> t + e"
    by blast
  define w where "w = uu - l"
  define ep where "ep = p - (uu - phi * w)"
  define eq where "eq = q - (l + phi * w)"
  from J have J': "a \<le> l" "l \<le> xs" "xs \<le> uu" "uu \<le> b" "a \<le> p" "p \<le> b" "a \<le> q" "q \<le> b"
    and n: "n \<le> N" and S: "\<bar>ep\<bar> + \<bar>eq\<bar> \<le> real (n + 2) * F"
    by (simp_all add: near_golden_def w_def ep_def eq_def)
  have ab: "a \<le> b" using xs by simp
  have dP0: "0 \<le> dP" using dP(1) by simp
  have "0 \<le> dP * (b - a)" using dP0 ab by simp
  with eF e0 have eleF: "e \<le> F" and F0: "0 \<le> F" by linarith+
  note bf = budget_facts [OF F0 budget(1) n]
  have inM: "\<bar>x\<bar> \<le> M" if "a \<le> x" "x \<le> b" for x
    using that rng by (simp add: abs_le_iff)
  have lM: "\<bar>l\<bar> \<le> M" and uM: "\<bar>uu\<bar> \<le> M" using J' by (auto intro!: inM)
  from half_sum_rounded [OF acc0 e0 uM lM rng(3)]
  obtain xF where xF: "half_sum rnd (Fin uu) (Fin l) = Fin xF" "\<bar>xF - (uu + l) / 2\<bar> \<le> 2 * e"
    by blast
  have near: "\<bar>xF - xs\<bar> \<le> t"
    using xF(2) J'(2,3) width eleF bf(2) by argo
  have w0: "0 \<le> w" using J' by (simp add: w_def)
  have wt: "w \<le> t + e" using width by (simp add: w_def)
  have pw: "0 \<le> phi * w" "phi * w \<le> w"
    using w0 phi_pos phi_lt_1 mult_right_mono [of phi 1 w] by simp_all
  have Ssum: "\<bar>ep\<bar> + \<bar>eq\<bar> \<le> t / 20" using S bf(1) by linarith
  have p: "p = uu - phi * w + ep" and q: "q = l + phi * w + eq"
    by (simp_all add: ep_def eq_def)
  have uw: "uu = l + w" by (simp add: w_def)
  have pn: "\<bar>p - xs\<bar> \<le> 2 * t"
    using p uw pw Ssum wt J'(2,3) eleF bf(2,4) by linarith
  have qn: "\<bar>q - xs\<bar> \<le> 2 * t"
    using q uw pw Ssum wt J'(2,3) eleF bf(2,4) by linarith
  have nn: "\<not> isNaN (f (Fin p))" "\<not> isNaN (f (Fin q))"
    using S1 J' by simp_all
  have "real (Suc n) < m" using n budget(3) by simp
  then have ns: "\<not> seq (Fin (real (Suc n))) (Fin m)" by simp
  have "goldenSectionMinimize rnd f (Fin a) (Fin b) (Fin t) (Fin m) st =
       Some (if lt (f (Fin a)) (half_sum rnd (f (Fin p)) (f (Fin q))) then Fin a
             else if lt (f (Fin b)) (half_sum rnd (f (Fin p)) (f (Fin q))) then Fin b
             else Fin xF,
             map_option (\<lambda>s. s\<lparr>iterations := Suc n, argmin := Fin xF,
               minimum := half_sum rnd (f (Fin p)) (f (Fin q)), converged := True\<rparr>) st,
             calls)"
    using nn ns by (simp add: goldenSectionMinimize_start run golden_finish_cases xF(1))
  with n near J'(5-8) pn qn show ?thesis by blast
qed

lemma refiner_accurate:
  fixes a b xs t m u h R :: real
  assumes acc: "accurate rnd R u h" and h: "0 \<le> h" "h \<le> u" and u: "u \<le> 1 / 100"
    and R: "4 \<le> R" "4 * \<bar>a\<bar> \<le> R" "4 * \<bar>b\<bar> \<le> R"
    and xs: "a \<le> xs" "xs \<le> b"
    and wide: "t \<le> b - a"
    and budget: "140 * (real (N + 2) * (u * R + h)) \<le> t" "phi ^ N * (b - a) \<le> t / 2"
      "real (N + 1) < m"
    and S10: "\<forall>x. a \<le> x \<and> x \<le> b \<longrightarrow> \<not> isNaN (f (Fin x))"
    and S20: "\<forall>p q. a \<le> p \<and> p + t / 10 < q \<and> q \<le> b \<and>
           gt (f (Fin q)) (f (Fin p)) \<longrightarrow> xs \<le> q"
    and S30: "\<forall>p q. a \<le> p \<and> p + t / 10 < q \<and> q \<le> b \<and>
           \<not> gt (f (Fin q)) (f (Fin p)) \<longrightarrow> p \<le> xs"
  shows "\<exists>n xF p q calls.
     goldenSectionMinimize rnd f (Fin a) (Fin b) (Fin t) (Fin m) st =
       Some (if lt (f (Fin a)) (half_sum rnd (f (Fin p)) (f (Fin q))) then Fin a
             else if lt (f (Fin b)) (half_sum rnd (f (Fin p)) (f (Fin q))) then Fin b
             else Fin xF,
             map_option (\<lambda>s. s\<lparr>iterations := Suc n, argmin := Fin xF,
               minimum := half_sum rnd (f (Fin p)) (f (Fin q)), converged := True\<rparr>) st,
             calls) \<and>
     n \<le> N \<and> \<bar>xF - xs\<bar> \<le> t \<and> a \<le> p \<and> p \<le> b \<and> a \<le> q \<and> q \<le> b \<and>
     \<bar>p - xs\<bar> \<le> 2 * t \<and> \<bar>q - xs\<bar> \<le> 2 * t"
proof -
  define e where "e = u * R + h"
  have u0: "0 \<le> u" using h by simp
  have R0: "0 \<le> R" using R by simp
  have uR: "0 \<le> u * R" using u0 R0 by simp
  have e0: "0 \<le> e" using uR h by (simp add: e_def)
  have acc0: "\<forall>x. \<bar>x\<bar> \<le> R \<longrightarrow> (\<exists>y. rnd x = Fin y \<and> \<bar>y - x\<bar> \<le> e)"
    unfolding e_def using accurate_absolute [OF acc u0] by blast
  from PHI_RATIO_accurate [OF acc h u R(1)] obtain P where
    P: "PHI_RATIO rnd = Fin P" and dP: "\<bar>P - phi\<bar> \<le> 4 * u"
    by blast
  have dP4: "4 * u \<le> 1 / 4" using u by simp
  have ba: "b - a \<le> R" using R by linarith
  have eF: "3 * e + 4 * u * (b - a) \<le> 7 * e"
  proof -
    define y where "y = u * (b - a)"
    define z where "z = u * R"
    have "y \<le> z" unfolding y_def z_def using ba u0 by (rule mult_left_mono)
    then have "3 * (z + h) + 4 * y \<le> 7 * (z + h)" using h by argo
    then show ?thesis by (simp add: y_def z_def e_def)
  qed
  have e8: "2 * e \<le> R / 4"
  proof -
    define z where "z = u * R"
    have "z \<le> 1 / 100 * R" unfolding z_def using u R0 by (rule mult_right_mono)
    then have "2 * (z + h) \<le> R / 4" using h u R(1) by argo
    then show ?thesis by (simp add: z_def e_def)
  qed
  have rng: "\<bar>a\<bar> \<le> R / 4" "\<bar>b\<bar> \<le> R / 4" "3 * (R / 4) + 2 * e \<le> R"
    using R e8 by linarith+
  have b1: "real (N + 2) * (7 * e) \<le> t / 20"
  proof -
    define X where "X = real (N + 2) * e"
    have "140 * X \<le> t" using budget(1) by (simp add: X_def e_def)
    then have "7 * X \<le> t / 20" by linarith
    then show ?thesis by (simp add: X_def algebra_simps)
  qed
  show ?thesis
    by (rule refiner_rounded [OF acc0 e0 eF P dP dP4 rng xs wide b1 budget(2,3) S10 S20 S30])
qed

lemma unimodal_decisions:
  fixes a b xs t :: real
  assumes xs: "a \<le> xs" "xs \<le> b" and t: "0 \<le> t"
    and dec: "\<forall>x y. a \<le> x \<and> x < y \<and> y \<le> xs \<longrightarrow> g y < g x"
    and inc: "\<forall>x y. xs \<le> x \<and> x < y \<and> y \<le> b \<longrightarrow> g x < g y"
    and fg: "\<forall>x. a \<le> x \<and> x \<le> b \<longrightarrow> f (Fin x) = Fin (g x)"
  shows "\<forall>x. a \<le> x \<and> x \<le> b \<longrightarrow> \<not> isNaN (f (Fin x))"
    and "\<forall>p q. a \<le> p \<and> p + t / 10 < q \<and> q \<le> b \<and> gt (f (Fin q)) (f (Fin p)) \<longrightarrow> xs \<le> q"
    and "\<forall>p q. a \<le> p \<and> p + t / 10 < q \<and> q \<le> b \<and> \<not> gt (f (Fin q)) (f (Fin p)) \<longrightarrow> p \<le> xs"
proof -
  show "\<forall>x. a \<le> x \<and> x \<le> b \<longrightarrow> \<not> isNaN (f (Fin x))"
    using fg by simp
  show "\<forall>p q. a \<le> p \<and> p + t / 10 < q \<and> q \<le> b \<and> gt (f (Fin q)) (f (Fin p)) \<longrightarrow> xs \<le> q"
  proof (intro allI impI)
    fix p q
    assume h: "a \<le> p \<and> p + t / 10 < q \<and> q \<le> b \<and> gt (f (Fin q)) (f (Fin p))"
    then have pq: "p < q" using t by linarith
    from h pq have "f (Fin p) = Fin (g p)" "f (Fin q) = Fin (g q)" using fg by simp_all
    with h have gg: "g p < g q" by simp
    show "xs \<le> q"
    proof (rule ccontr)
      assume "\<not> xs \<le> q"
      with h pq dec have "g q < g p" by simp
      with gg show False by simp
    qed
  qed
  show "\<forall>p q. a \<le> p \<and> p + t / 10 < q \<and> q \<le> b \<and> \<not> gt (f (Fin q)) (f (Fin p)) \<longrightarrow> p \<le> xs"
  proof (intro allI impI)
    fix p q
    assume h: "a \<le> p \<and> p + t / 10 < q \<and> q \<le> b \<and> \<not> gt (f (Fin q)) (f (Fin p))"
    then have pq: "p < q" using t by linarith
    from h pq have "f (Fin p) = Fin (g p)" "f (Fin q) = Fin (g q)" using fg by simp_all
    with h have gg: "g q \<le> g p" by simp
    show "p \<le> xs"
    proof (rule ccontr)
      assume "\<not> p \<le> xs"
      with h pq inc have "g p < g q" by simp
      with gg show False by simp
    qed
  qed
qed

lemma tells_sideD:
  assumes "tells_side f a b xs d"
  shows "\<forall>x. a \<le> x \<and> x \<le> b \<longrightarrow> \<not> isNaN (f (Fin x))"
    and "\<forall>p q. a \<le> p \<and> p + d < q \<and> q \<le> b \<and> gt (f (Fin q)) (f (Fin p)) \<longrightarrow> xs \<le> q"
    and "\<forall>p q. a \<le> p \<and> p + d < q \<and> q \<le> b \<and> \<not> gt (f (Fin q)) (f (Fin p)) \<longrightarrow> p \<le> xs"
  using assms unfolding tells_side_def by (blast, metis, metis)

lemma tells_sideI:
  assumes "\<forall>x. a \<le> x \<and> x \<le> b \<longrightarrow> \<not> isNaN (f (Fin x))"
    and "\<forall>p q. a \<le> p \<and> p + d < q \<and> q \<le> b \<and> gt (f (Fin q)) (f (Fin p)) \<longrightarrow> xs \<le> q"
    and "\<forall>p q. a \<le> p \<and> p + d < q \<and> q \<le> b \<and> \<not> gt (f (Fin q)) (f (Fin p)) \<longrightarrow> p \<le> xs"
  shows "tells_side f a b xs d"
  using assms unfolding tells_side_def by auto

lemma minimize_rounded:
  fixes a b xs t m u h R :: real
  assumes acc: "accurate rnd R u h" and h: "0 \<le> h" "h \<le> u" and u: "u \<le> 1 / 100"
    and R: "4 \<le> R" "4 * \<bar>a\<bar> \<le> R" "4 * \<bar>b\<bar> \<le> R"
    and opts: "resolved rnd opts = (Fin t, dx, Fin a, Fin b, Fin m)"
    and xs: "a \<le> xs" "xs \<le> b"
    and wide: "t \<le> b - a"
    and side: "tells_side f a b xs (t / 10)"
    and budget: "140 * (real (N + 2) * (u * R + h)) \<le> t" "phi ^ N * (b - a) \<le> t / 2"
      "real (N + 1) < m"
  shows "\<exists>v s' calls xF p q.
     minimizeSearch rnd f opts (Some s) = Some (v, Some s', calls) \<and>
     converged s' \<and> iterations s' \<le> N + 1 \<and> argmin s' = Fin xF \<and> \<bar>xF - xs\<bar> \<le> t \<and>
     minimum s' = half_sum rnd (f (Fin p)) (f (Fin q)) \<and>
     a \<le> p \<and> p \<le> b \<and> a \<le> q \<and> q \<le> b \<and> \<bar>p - xs\<bar> \<le> 2 * t \<and> \<bar>q - xs\<bar> \<le> 2 * t \<and>
     v = (if lt (f (Fin a)) (minimum s') then Fin a
          else if lt (f (Fin b)) (minimum s') then Fin b else Fin xF)"
proof -
  note S = tells_sideD [OF side]
  from refiner_accurate [OF acc h u R xs wide budget S, of "Some (initial_status s)"]
  obtain n xF p q calls where
    run: "goldenSectionMinimize rnd f (Fin a) (Fin b) (Fin t) (Fin m) (Some (initial_status s)) =
       Some (if lt (f (Fin a)) (half_sum rnd (f (Fin p)) (f (Fin q))) then Fin a
             else if lt (f (Fin b)) (half_sum rnd (f (Fin p)) (f (Fin q))) then Fin b
             else Fin xF,
             map_option (\<lambda>s. s\<lparr>iterations := Suc n, argmin := Fin xF,
               minimum := half_sum rnd (f (Fin p)) (f (Fin q)), converged := True\<rparr>)
               (Some (initial_status s)),
             calls)"
    and r: "n \<le> N" "\<bar>xF - xs\<bar> \<le> t" "a \<le> p" "p \<le> b" "a \<le> q" "q \<le> b"
      "\<bar>p - xs\<bar> \<le> 2 * t" "\<bar>q - xs\<bar> \<le> 2 * t"
    by blast
  define s' where "s' = (initial_status s)\<lparr>iterations := Suc n, argmin := Fin xF,
               minimum := half_sum rnd (f (Fin p)) (f (Fin q)), converged := True\<rparr>"
  have "minimizeSearch rnd f opts (Some s) =
      Some (if lt (f (Fin a)) (minimum s') then Fin a
          else if lt (f (Fin b)) (minimum s') then Fin b else Fin xF, Some s', calls)"
    using run by (simp add: minimizeSearch_resolved [OF opts] s'_def)
  moreover have "converged s'" "iterations s' \<le> N + 1" "argmin s' = Fin xF"
    "minimum s' = half_sum rnd (f (Fin p)) (f (Fin q))"
    using r(1) by (simp_all add: s'_def)
  ultimately show ?thesis using r by blast
qed

subsection \<open>The quadratic of the example\<close>

text \<open>
  \<^verbatim>\<open>x => (x - 3) * (x - 3)\<close>, computed in an accurate arithmetic, tells the side of
  \<open>3\<close>: of two points whose distances from \<open>3\<close> differ by \<open>g\<close>, with \<open>g\<close> well
  above the errors, the farther one has the greater computed value. From \<open>0\<close> in steps
  of \<open>1\<close> the bracketing search stops at the fifth sample, and returns an interval whose
  ends are near \<open>2\<close> and \<open>4\<close>.
\<close>

lemma quad_exact [simp]: "quad exact c (Fin x) = Fin ((x - c) * (x - c))"
  by (simp add: quad_def Let_def)

lemma square_dec:
  fixes c x y :: real
  assumes "x < y" "y \<le> c"
  shows "(y - c) * (y - c) < (x - c) * (x - c)"
proof -
  have "(x - c) * (x - c) - (y - c) * (y - c) = (x - y) * (x + y - 2 * c)"
    by (simp add: algebra_simps)
  moreover have "0 < (x - y) * (x + y - 2 * c)"
    using assms by (intro mult_neg_neg) simp_all
  ultimately show ?thesis by simp
qed

lemma square_inc:
  fixes c x y :: real
  assumes "c \<le> x" "x < y"
  shows "(x - c) * (x - c) < (y - c) * (y - c)"
proof -
  have "(y - c) * (y - c) - (x - c) * (x - c) = (y - x) * (x + y - 2 * c)"
    by (simp add: algebra_simps)
  moreover have "0 < (y - x) * (x + y - 2 * c)"
    using assms by (intro mult_pos_pos) simp_all
  ultimately show ?thesis by simp
qed

lemma power_62_5: "(62 / 100 :: real) ^ 5 \<le> 1 / 10"
  by (simp add: power_divide)

lemma phi_power_50: "phi ^ 50 \<le> 1 / 10 ^ 10"
proof -
  have "phi ^ 5 \<le> (62 / 100) ^ 5"
    using phi_pos phi_bounds(2) by (intro power_mono) simp_all
  with power_62_5 have "phi ^ 5 \<le> 1 / 10" by linarith
  then have "(phi ^ 5) ^ 10 \<le> (1 / 10) ^ 10"
    using phi_pos by (intro power_mono) simp_all
  moreover have "phi ^ 50 = (phi ^ 5) ^ 10"
    by (simp only: power_mult [symmetric]) simp
  ultimately have "phi ^ 50 \<le> (1 / 10) ^ 10" by (simp only:)
  then show ?thesis by (simp add: power_divide)
qed

lemma quad_value:
  fixes x u h R :: real
  assumes acc: "accurate rnd R u h" and h: "0 \<le> h" "h \<le> u" and u: "u \<le> 1 / 100"
    and R: "16 \<le> R" and x: "\<bar>x - 3\<bar> \<le> 7 / 2"
  shows "\<exists>d y. quad rnd 3 (Fin x) = Fin y \<and> \<bar>d - (x - 3)\<bar> \<le> u * \<bar>x - 3\<bar> + h \<and>
           \<bar>y - d * d\<bar> \<le> u * (d * d) + h"
proof -
  have u0: "0 \<le> u" using h by simp
  have "\<bar>x - 3\<bar> \<le> R" using x R by simp
  from accurateD [OF acc this] obtain d where d: "rnd (x - 3) = Fin d"
      "\<bar>d - (x - 3)\<bar> \<le> u * \<bar>x - 3\<bar> + h"
    by blast
  have "u * \<bar>x - 3\<bar> \<le> 1 / 100 * (7 / 2)"
    using u u0 x by (intro mult_mono) simp_all
  with d(2) h u x have d4: "\<bar>d\<bar> \<le> 4" by linarith
  have "\<bar>d\<bar> * \<bar>d\<bar> \<le> 4 * 4" using d4 by (intro mult_mono) simp_all
  then have dd: "\<bar>d * d\<bar> \<le> 16" by (simp add: abs_mult)
  then have "\<bar>d * d\<bar> \<le> R" using R by simp
  from accurateD [OF acc this] obtain y where y: "rnd (d * d) = Fin y"
      "\<bar>y - d * d\<bar> \<le> u * \<bar>d * d\<bar> + h"
    by blast
  have "quad rnd 3 (Fin x) = Fin y" by (simp add: quad_def d(1) y(1))
  moreover have "\<bar>d * d\<bar> = d * d" by simp
  ultimately show ?thesis using d(2) y(2) by auto
qed

lemma square_gap:
  fixes X Y u g h :: real
  assumes Y0: "0 \<le> Y" and u0: "0 \<le> u" and B: "g / 2 \<le> X - Y" and g0: "0 \<le> g"
    and C: "g / 4 \<le> X - Y - u * (X + Y)"
  shows "g * g / 8 \<le> X * X * (1 - u) - Y * Y * (1 + u)"
proof -
  define A where "A = X + Y"
  define D where "D = X - Y - u * A"
  have X0: "0 \<le> X" using B Y0 g0 by linarith
  have A2: "g / 2 \<le> A" using B Y0 by (simp add: A_def)
  have D4: "g / 4 \<le> D" using C by (simp add: D_def A_def)
  define T where "T = X * X * (1 - u) - Y * Y * (1 + u)"
  define V where "V = u * (2 * (X * Y))"
  define W where "W = A * D"
  define G where "G = g / 2 * (g / 4)"
  have "G \<le> W"
    unfolding G_def W_def using A2 D4 g0 by (intro mult_mono) simp_all
  moreover have "W = T - V"
    by (simp add: W_def T_def V_def A_def D_def algebra_simps)
  moreover have "0 \<le> V" unfolding V_def using u0 X0 Y0 by simp
  ultimately have "G \<le> T" by linarith
  then show ?thesis by (simp add: G_def T_def)
qed

lemma quad_separates:
  fixes xn xf u h g R :: real
  assumes acc: "accurate rnd R u h" and h: "0 \<le> h" "h \<le> u" and u: "u \<le> 1 / 100"
    and R: "16 \<le> R"
    and rng: "\<bar>xf - 3\<bar> \<le> 7 / 2"
    and sep: "\<bar>xn - 3\<bar> + g \<le> \<bar>xf - 3\<bar>"
    and g: "40 * u \<le> g" "16 * h < g * g"
  shows "lt (quad rnd 3 (Fin xn)) (quad rnd 3 (Fin xf))"
proof -
  have u0: "0 \<le> u" using h by simp
  have g0: "0 \<le> g" using g(1) u0 by simp
  define s where "s = \<bar>xn - 3\<bar>"
  define sf where "sf = \<bar>xf - 3\<bar>"
  have s0: "0 \<le> s" by (simp add: s_def)
  have sg: "s + g \<le> sf" and sf2: "sf \<le> 7 / 2" using sep rng by (simp_all add: s_def sf_def)
  have s2: "s \<le> 7 / 2" and g2: "g \<le> 7 / 2" using sg sf2 s0 g0 by linarith+
  have "\<bar>xn - 3\<bar> \<le> 7 / 2" using s2 by (simp add: s_def)
  from quad_value [OF acc h u R this] obtain dn yn where
    n: "quad rnd 3 (Fin xn) = Fin yn" "\<bar>dn - (xn - 3)\<bar> \<le> u * s + h"
       "\<bar>yn - dn * dn\<bar> \<le> u * (dn * dn) + h"
    unfolding s_def by blast
  have "\<bar>xf - 3\<bar> \<le> 7 / 2" using sf2 by (simp add: sf_def)
  from quad_value [OF acc h u R this] obtain df yf where
    f: "quad rnd 3 (Fin xf) = Fin yf" "\<bar>df - (xf - 3)\<bar> \<le> u * sf + h"
       "\<bar>yf - df * df\<bar> \<le> u * (df * df) + h"
    unfolding sf_def by blast
  define Y where "Y = s + (u * s + h)"
  define X where "X = (s + g) - (u * (s + g) + h)"
  have us: "0 \<le> u * s" "u * s \<le> 1 / 100 * (7 / 2)"
    using u0 s0 mult_mono [of u "1 / 100" s "7 / 2"] u s2 by simp_all
  have ug: "0 \<le> u * g" "u * g \<le> u * (7 / 2)"
    using u0 g0 mult_left_mono [OF g2 u0] by simp_all
  have usg: "u * (s + g) = u * s + u * g" by (simp add: algebra_simps)
  have us2: "u * s \<le> u * (7 / 2)" using s2 u0 by (rule mult_left_mono)
  have Y0: "0 \<le> Y" using s0 us h by (simp add: Y_def)
  have Y3: "Y \<le> 4" using s2 us h u unfolding Y_def by linarith
  have X3: "X \<le> 4" using sg sf2 ug us h unfolding X_def usg by linarith
  have B: "g / 2 \<le> X - Y"
    unfolding X_def Y_def usg using ug us2 h g(1) by linarith
  have B2: "6 / 10 * g \<le> X - Y"
    unfolding X_def Y_def usg using ug us2 h g(1) by linarith
  define Z where "Z = u * (X + Y)"
  have "Z \<le> u * 8" unfolding Z_def using X3 Y3 u0 by (intro mult_left_mono) simp_all
  then have "g / 4 \<le> X - Y - Z" using B2 g(1) g0 by linarith
  then have C: "g / 4 \<le> X - Y - u * (X + Y)" by (simp add: Z_def)
  note gap = square_gap [OF Y0 u0 B g0 C]
  have X0: "0 \<le> X" using B Y0 g0 by linarith
  have dnY: "\<bar>dn\<bar> \<le> Y" using n(2) unfolding Y_def s_def by linarith
  have "u * sf \<le> 1 * sf" using u by (intro mult_right_mono) (simp_all add: sf_def)
  have "(s + g) - u * (s + g) \<le> sf - u * sf"
  proof -
    have "(1 - u) * (s + g) \<le> (1 - u) * sf" using sg u by (intro mult_left_mono) simp_all
    then show ?thesis by (simp add: algebra_simps)
  qed
  then have dfX: "X \<le> \<bar>df\<bar>" using f(2) unfolding X_def sf_def by linarith
  have nn: "dn * dn \<le> Y * Y"
  proof -
    have "\<bar>dn\<bar> * \<bar>dn\<bar> \<le> Y * Y" using dnY by (intro mult_mono) simp_all
    then show ?thesis by (simp add: abs_mult_self_eq)
  qed
  have ff: "X * X \<le> df * df"
  proof -
    have "X * X \<le> \<bar>df\<bar> * \<bar>df\<bar>" using dfX X0 by (intro mult_mono) simp_all
    then show ?thesis by (simp add: abs_mult_self_eq)
  qed
  have u1: "0 \<le> 1 - u" "0 \<le> 1 + u" using u u0 by simp_all
  have "yn \<le> dn * dn * (1 + u) + h" using n(3) by (simp add: algebra_simps abs_le_iff)
  moreover have "dn * dn * (1 + u) \<le> Y * Y * (1 + u)" using nn u1 by (intro mult_right_mono)
  ultimately have yn: "yn \<le> Y * Y * (1 + u) + h" by linarith
  have "df * df * (1 - u) - h \<le> yf" using f(3) by (simp add: algebra_simps abs_le_iff)
  moreover have "X * X * (1 - u) \<le> df * df * (1 - u)" using ff u1 by (intro mult_right_mono)
  ultimately have yf: "X * X * (1 - u) - h \<le> yf" by linarith
  have "2 * h < g * g / 8" using g(2) by simp
  with gap yn yf have "yn < yf" by linarith
  then show ?thesis by (simp add: n(1) f(1))
qed

lemma quad_coarse:
  fixes x u h :: real
  assumes acc: "accurate rnd R u h" and h: "0 \<le> h" "h \<le> u" and u: "u \<le> 1 / 100"
    and R: "16 \<le> R" and x: "\<bar>x - 3\<bar> \<le> 7 / 2"
  shows "\<exists>y. quad rnd 3 (Fin x) = Fin y \<and> \<bar>y - (x - 3) * (x - 3)\<bar> \<le> 60 * u"
proof -
  have u0: "0 \<le> u" using h by simp
  from quad_value [OF acc h u R x] obtain d y where
    y: "quad rnd 3 (Fin x) = Fin y" and d: "\<bar>d - (x - 3)\<bar> \<le> u * \<bar>x - 3\<bar> + h"
    and yd: "\<bar>y - d * d\<bar> \<le> u * (d * d) + h"
    by blast
  define c where "c = x - 3"
  have "u * \<bar>c\<bar> \<le> u * (7 / 2)" using x u0 unfolding c_def by (intro mult_left_mono) simp_all
  with d h have dc: "\<bar>d - c\<bar> \<le> 9 / 2 * u" unfolding c_def by linarith
  have d4: "\<bar>d\<bar> \<le> 4" using dc x u unfolding c_def by linarith
  have "\<bar>d\<bar> * \<bar>d\<bar> \<le> 4 * 4" using d4 by (intro mult_mono) simp_all
  then have dd: "d * d \<le> 16" by (simp add: abs_mult_self_eq)
  have "u * (d * d) \<le> u * 16" using dd u0 by (rule mult_left_mono)
  with yd h have e2: "\<bar>y - d * d\<bar> \<le> 17 * u" by linarith
  have "\<bar>d + c\<bar> \<le> 8" using d4 x unfolding c_def by linarith
  then have "\<bar>d - c\<bar> * \<bar>d + c\<bar> \<le> 9 / 2 * u * 8"
    using dc by (intro mult_mono) (simp_all add: u0)
  moreover have "d * d - c * c = (d - c) * (d + c)" by (simp add: algebra_simps)
  ultimately have e1: "\<bar>d * d - c * c\<bar> \<le> 36 * u" by (simp add: abs_mult)
  have "\<bar>y - c * c\<bar> \<le> 60 * u" using e1 e2 u0 by linarith
  with y show ?thesis unfolding c_def by blast
qed

lemma lt_asym_number: "lt x y \<Longrightarrow> \<not> lt y x"
  by (cases x; cases y) simp_all

lemma quad_decisions:
  fixes u h t xl x4 :: real
  assumes acc: "accurate rnd 32 u h" and h: "0 \<le> h" "h \<le> u" and u: "u \<le> 1 / 10 ^ 14"
    and hh: "h \<le> 1 / 10 ^ 20"
    and t: "9 / 10 ^ 9 \<le> t"
    and b: "\<bar>xl - 2\<bar> \<le> 1 / 1000" "\<bar>x4 - 4\<bar> \<le> 1 / 1000"
  shows "\<forall>x. xl \<le> x \<and> x \<le> x4 \<longrightarrow> \<not> isNaN (quad rnd 3 (Fin x))"
    and "\<forall>p q. xl \<le> p \<and> p + t / 10 < q \<and> q \<le> x4 \<and>
           gt (quad rnd 3 (Fin q)) (quad rnd 3 (Fin p)) \<longrightarrow> 3 \<le> q"
    and "\<forall>p q. xl \<le> p \<and> p + t / 10 < q \<and> q \<le> x4 \<and>
           \<not> gt (quad rnd 3 (Fin q)) (quad rnd 3 (Fin p)) \<longrightarrow> p \<le> 3"
proof -
  have u0: "0 \<le> u" using h by simp
  have u14: "u \<le> 1 / 100000000000000" using u by simp
  have h20: "h \<le> 1 / 100000000000000000000" using hh by simp
  have t9: "9 / 1000000000 \<le> t" using t by simp
  have u100: "u \<le> 1 / 100" using u14 by simp
  have R: "(16::real) \<le> 32" by simp
  have rng: "\<bar>x - 3\<bar> \<le> 7 / 2" if "xl \<le> x" "x \<le> x4" for x
    using that b by linarith
  show "\<forall>x. xl \<le> x \<and> x \<le> x4 \<longrightarrow> \<not> isNaN (quad rnd 3 (Fin x))"
  proof (intro allI impI)
    fix x assume "xl \<le> x \<and> x \<le> x4"
    then have "\<bar>x - 3\<bar> \<le> 7 / 2" using rng by blast
    from quad_value [OF acc h u100 R this] show "\<not> isNaN (quad rnd 3 (Fin x))" by auto
  qed
  have sep: "lt (quad rnd 3 (Fin xn)) (quad rnd 3 (Fin xf))"
    if "\<bar>xf - 3\<bar> \<le> 7 / 2" "\<bar>xn - 3\<bar> + g \<le> \<bar>xf - 3\<bar>" "t / 10 < g" for xn xf g
  proof -
    have g9: "9 / 10000000000 < g" using that(3) t9 by linarith
    have "9 / 10000000000 * (9 / 10000000000) < g * g"
      using g9 by (intro mult_strict_mono) simp_all
    then have g2: "16 * h < g * g" using h20 by linarith
    have g1: "40 * u \<le> g" using g9 u14 by linarith
    show ?thesis by (rule quad_separates [OF acc h u100 R that(1,2) g1 g2])
  qed
  show "\<forall>p q. xl \<le> p \<and> p + t / 10 < q \<and> q \<le> x4 \<and>
           gt (quad rnd 3 (Fin q)) (quad rnd 3 (Fin p)) \<longrightarrow> 3 \<le> q"
  proof (intro allI impI)
    fix p q
    assume a: "xl \<le> p \<and> p + t / 10 < q \<and> q \<le> x4 \<and>
           gt (quad rnd 3 (Fin q)) (quad rnd 3 (Fin p))"
    show "3 \<le> q"
    proof (rule ccontr)
      assume "\<not> 3 \<le> q"
      with a t9 have pq: "p < q" "q < 3" by linarith+
      have r: "\<bar>p - 3\<bar> \<le> 7 / 2" using a pq b by linarith
      have s: "\<bar>q - 3\<bar> + (q - p) \<le> \<bar>p - 3\<bar>" using pq by linarith
      have "t / 10 < q - p" using a by linarith
      from sep [OF r s this] a show False
        by (simp add: gt_def lt_asym_number)
    qed
  qed
  show "\<forall>p q. xl \<le> p \<and> p + t / 10 < q \<and> q \<le> x4 \<and>
           \<not> gt (quad rnd 3 (Fin q)) (quad rnd 3 (Fin p)) \<longrightarrow> p \<le> 3"
  proof (intro allI impI)
    fix p q
    assume a: "xl \<le> p \<and> p + t / 10 < q \<and> q \<le> x4 \<and>
           \<not> gt (quad rnd 3 (Fin q)) (quad rnd 3 (Fin p))"
    show "p \<le> 3"
    proof (rule ccontr)
      assume "\<not> p \<le> 3"
      with a t9 have pq: "p < q" "3 < p" by linarith+
      have r: "\<bar>q - 3\<bar> \<le> 7 / 2" using a pq b by linarith
      have s: "\<bar>p - 3\<bar> + (q - p) \<le> \<bar>q - 3\<bar>" using pq by linarith
      have "t / 10 < q - p" using a by linarith
      from sep [OF r s this] a show False
        by (simp add: gt_def)
    qed
  qed
qed

lemma bracket_four_samples:
  assumes dx: "isFinite dx"
    and v: "f x0 = Fin v0" "f (sample rnd x0 dx 1) = Fin v1" "f (sample rnd x0 dx 2) = Fin v2"
      "f (sample rnd x0 dx 3) = Fin v3" "f (sample rnd x0 dx 4) = Fin v4"
    and o: "v1 < v0" "v2 < v1" "v3 < v2" "v3 < v4"
  shows "bracket_loop rnd f dx (f x0) x0 (f x0) (f x0) False [x0] =
     Some (sample rnd x0 dx 4,
       [x0, sample rnd x0 dx 1, sample rnd x0 dx 2, sample rnd x0 dx 3, sample rnd x0 dx 4])"
proof -
  define x1 where "x1 = add rnd x0 dx"
  define x2 where "x2 = add rnd x1 dx"
  define x3 where "x3 = add rnd x2 dx"
  define x4 where "x4 = add rnd x3 dx"
  have smp: "sample rnd x0 dx 1 = x1" "sample rnd x0 dx 2 = x2" "sample rnd x0 dx 3 = x3"
    "sample rnd x0 dx 4 = x4"
    by (simp_all add: x1_def x2_def x3_def x4_def eval_nat_numeral)
  note fv = v [unfolded smp]
  have g: "bracket_guard False dx" "\<not> bracket_guard True dx"
    using dx by (cases dx; simp add: bracket_guard_def)+
  have l6: "bracket_loop rnd f dx fL xU fU fMin True cs = Some (xU, cs)" for fL xU fU fMin cs
    by (subst bracket_loop.simps) (simp add: g)
  have l5: "bracket_loop rnd f dx (Fin v0) x4 (Fin v4) (Fin v3) False cs = Some (x4, cs)" for cs
    using o by (subst bracket_loop.simps) (simp add: g Let_def Math_min_def l6)
  have l4: "bracket_loop rnd f dx (Fin v0) x3 (Fin v3) (Fin v3) False cs = Some (x4, cs @ [x4])"
    for cs
    using o by (subst bracket_loop.simps)
      (simp add: g Let_def Math_min_def l5 x4_def [symmetric] fv)
  have l3: "bracket_loop rnd f dx (Fin v0) x2 (Fin v2) (Fin v2) False cs =
      Some (x4, cs @ [x3, x4])" for cs
    using o by (subst bracket_loop.simps)
      (simp add: g Let_def Math_min_def l4 x3_def [symmetric] fv)
  have l2: "bracket_loop rnd f dx (Fin v0) x1 (Fin v1) (Fin v1) False cs =
      Some (x4, cs @ [x2, x3, x4])" for cs
    using o by (subst bracket_loop.simps)
      (simp add: g Let_def Math_min_def l3 x2_def [symmetric] fv)
  have l1: "bracket_loop rnd f dx (Fin v0) x0 (Fin v0) (Fin v0) False cs =
      Some (x4, cs @ [x1, x2, x3, x4])" for cs
    using o by (subst bracket_loop.simps)
      (simp add: g Let_def Math_min_def l2 x1_def [symmetric] fv)
  show ?thesis
    unfolding smp fv by (simp add: l1)
qed

lemma add_one_rounded:
  fixes x u h :: real
  assumes acc: "accurate rnd 32 u h" and h: "0 \<le> h" "h \<le> u" and x: "\<bar>x\<bar> \<le> 5"
  shows "\<exists>y. add rnd (Fin x) (Fin 1) = Fin y \<and> \<bar>y - (x + 1)\<bar> \<le> 7 * u"
proof -
  have u0: "0 \<le> u" using h by simp
  have "\<bar>x + 1\<bar> \<le> 32" using x by simp
  from accurateD [OF acc this] obtain y where y: "rnd (x + 1) = Fin y"
      "\<bar>y - (x + 1)\<bar> \<le> u * \<bar>x + 1\<bar> + h"
    by blast
  have "\<bar>x + 1\<bar> \<le> 6" using x by simp
  then have "u * \<bar>x + 1\<bar> \<le> u * 6" using u0 by (rule mult_left_mono)
  with y(2) h have "\<bar>y - (x + 1)\<bar> \<le> 7 * u" by linarith
  with y(1) show ?thesis by simp
qed

lemma bracket_quad_rounded:
  fixes u h :: real
  assumes acc: "accurate rnd 32 u h" and h: "0 \<le> h" "h \<le> u" and u: "u \<le> 1 / 10 ^ 14"
  shows "\<exists>xl x4 calls. bracketMinimum rnd (quad rnd 3) (Fin 0) (Fin 1) =
           Some (Fin xl, Fin x4, calls) \<and> \<bar>xl - 2\<bar> \<le> 1 / 1000 \<and> \<bar>x4 - 4\<bar> \<le> 1 / 1000"
proof -
  have u0: "0 \<le> u" using h by simp
  have u14: "u \<le> 1 / 100000000000000" using u by simp
  have u100: "u \<le> 1 / 100" using u14 by simp
  have R: "(16::real) \<le> 32" by simp
  from add_one_rounded [OF acc h, of 0] obtain y1 where
    y1: "add rnd (Fin 0) (Fin 1) = Fin y1" "\<bar>y1 - 1\<bar> \<le> 7 * u" by auto
  have "\<bar>y1\<bar> \<le> 5" using y1(2) u14 by linarith
  from add_one_rounded [OF acc h this] obtain y2 where
    y2: "add rnd (Fin y1) (Fin 1) = Fin y2" "\<bar>y2 - (y1 + 1)\<bar> \<le> 7 * u" by auto
  have "\<bar>y2\<bar> \<le> 5" using y1(2) y2(2) u14 by linarith
  from add_one_rounded [OF acc h this] obtain y3 where
    y3: "add rnd (Fin y2) (Fin 1) = Fin y3" "\<bar>y3 - (y2 + 1)\<bar> \<le> 7 * u" by auto
  have "\<bar>y3\<bar> \<le> 5" using y1(2) y2(2) y3(2) u14 by linarith
  from add_one_rounded [OF acc h this] obtain y4 where
    y4: "add rnd (Fin y3) (Fin 1) = Fin y4" "\<bar>y4 - (y3 + 1)\<bar> \<le> 7 * u" by auto
  have smp: "sample rnd (Fin 0) (Fin 1) 1 = Fin y1" "sample rnd (Fin 0) (Fin 1) 2 = Fin y2"
    "sample rnd (Fin 0) (Fin 1) 3 = Fin y3" "sample rnd (Fin 0) (Fin 1) 4 = Fin y4"
    using y1(1) y2(1) y3(1) y4(1) by (simp_all add: eval_nat_numeral)
  have near: "\<bar>y1 - 1\<bar> \<le> 1 / 1000" "\<bar>y2 - 2\<bar> \<le> 1 / 1000" "\<bar>y3 - 3\<bar> \<le> 1 / 1000"
    "\<bar>y4 - 4\<bar> \<le> 1 / 1000"
    using y1(2) y2(2) y3(2) y4(2) u14 by linarith+
  have val: "\<exists>v. quad rnd 3 (Fin x) = Fin v" if "\<bar>x - 3\<bar> \<le> 7 / 2" for x
    using quad_value [OF acc h u100 R that] by blast
  have r0: "\<bar>0 - 3 :: real\<bar> \<le> 7 / 2" by simp
  have r1: "\<bar>y1 - 3\<bar> \<le> 7 / 2" using near(1) by linarith
  have r2: "\<bar>y2 - 3\<bar> \<le> 7 / 2" using near(2) by linarith
  have r3: "\<bar>y3 - 3\<bar> \<le> 7 / 2" using near(3) by linarith
  have r4: "\<bar>y4 - 3\<bar> \<le> 7 / 2" using near(4) by linarith
  from val [OF r0] obtain v0 where v0: "quad rnd 3 (Fin 0) = Fin v0" by auto
  from val [OF r1] obtain v1 where v1: "quad rnd 3 (Fin y1) = Fin v1" by auto
  from val [OF r2] obtain v2 where v2: "quad rnd 3 (Fin y2) = Fin v2" by auto
  from val [OF r3] obtain v3 where v3: "quad rnd 3 (Fin y3) = Fin v3" by auto
  from val [OF r4] obtain v4 where v4: "quad rnd 3 (Fin y4) = Fin v4" by auto
  have g: "40 * u \<le> 9 / 10" "16 * h < 9 / 10 * (9 / 10)" using u14 h by simp_all
  have sep: "lt (quad rnd 3 (Fin xn)) (quad rnd 3 (Fin xf))"
    if "\<bar>xf - 3\<bar> \<le> 7 / 2" "\<bar>xn - 3\<bar> + 9 / 10 \<le> \<bar>xf - 3\<bar>" for xn xf
    by (rule quad_separates [OF acc h u100 R that g])
  have "\<bar>y1 - 3\<bar> + 9 / 10 \<le> 3" using near(1) by linarith
  then have s10: "\<bar>y1 - 3\<bar> + 9 / 10 \<le> \<bar>0 - 3 :: real\<bar>" by simp
  have s21: "\<bar>y2 - 3\<bar> + 9 / 10 \<le> \<bar>y1 - 3\<bar>" using near(1,2) by linarith
  have s32: "\<bar>y3 - 3\<bar> + 9 / 10 \<le> \<bar>y2 - 3\<bar>" using near(2,3) by linarith
  have s34: "\<bar>y3 - 3\<bar> + 9 / 10 \<le> \<bar>y4 - 3\<bar>" using near(3,4) by linarith
  have o: "v1 < v0" "v2 < v1" "v3 < v2" "v3 < v4"
    using sep [OF r0 s10] sep [OF r1 s21] sep [OF r2 s32] sep [OF r4 s34]
    by (simp_all add: v0 v1 v2 v3 v4)
  have loop: "bracket_loop rnd (quad rnd 3) (Fin 1) (quad rnd 3 (Fin 0)) (Fin 0)
      (quad rnd 3 (Fin 0)) (quad rnd 3 (Fin 0)) False [Fin 0] =
      Some (Fin y4, [Fin 0, Fin y1, Fin y2, Fin y3, Fin y4])"
  proof -
    have fin: "isFinite (Fin 1)" by simp
    show ?thesis
      by (rule bracket_four_samples [where dx = "Fin 1" and f = "quad rnd 3"
            and ?x0.0 = "Fin 0" and rnd = rnd, unfolded smp, OF fin v0 v1 v2 v3 v4 o])
  qed
  have "\<bar>2 * 1 :: real\<bar> \<le> 32" by simp
  from accurateD [OF acc this] obtain two where two: "rnd (2 * 1) = Fin two"
      "\<bar>two - 2 * 1\<bar> \<le> u * \<bar>2 * 1\<bar> + h"
    by blast
  have two3: "\<bar>two - 2\<bar> \<le> 3 * u" using two(2) h by simp
  have d3: "\<bar>y4 - two\<bar> \<le> 3" using near two3 u14 by linarith
  then have "\<bar>y4 - two\<bar> \<le> 32" by simp
  from accurateD [OF acc this] obtain xl where xl1: "rnd (y4 - two) = Fin xl"
    and xlb: "\<bar>xl - (y4 - two)\<bar> \<le> u * \<bar>y4 - two\<bar> + h"
    by blast
  have "u * \<bar>y4 - two\<bar> \<le> u * 3" using d3 u0 by (rule mult_left_mono)
  with xlb h have xl: "\<bar>xl - (y4 - two)\<bar> \<le> 4 * u" by linarith
  have "\<bar>y4 - 4\<bar> \<le> 28 * u" using y1(2) y2(2) y3(2) y4(2) by linarith
  then have xl2: "\<bar>xl - 2\<bar> \<le> 1 / 1000" using xl two3 u14 by linarith
  have "\<bar>xl\<bar> \<le> 5" using xl2 by linarith
  from add_one_rounded [OF acc h this] obtain z where
    z: "add rnd (Fin xl) (Fin 1) = Fin z" "\<bar>z - (xl + 1)\<bar> \<le> 7 * u" by auto
  have "z \<noteq> 0" using z(2) xl2 u14 by linarith
  then have "bracketMinimum rnd (quad rnd 3) (Fin 0) (Fin 1) =
      Some (Fin xl, Fin y4, [Fin 0, Fin y1, Fin y2, Fin y3, Fin y4])"
    using two(1) z(1) by (simp add: bracketMinimum_def loop Let_def xl1)
  with xl2 near(4) show ?thesis by blast
qed

lemma default_tolerance:
  fixes u h :: real
  assumes acc: "accurate rnd 32 u h" and h: "0 \<le> h" "h \<le> u" and u: "u \<le> 1 / 10 ^ 14"
  shows "\<exists>t. rnd (1 / 10 ^ 8) = Fin t \<and> 9 / 10 ^ 9 \<le> t \<and> t \<le> 11 / 10 ^ 9"
proof -
  have u0: "0 \<le> u" using h by simp
  have u14: "u \<le> 1 / 100000000000000" using u by simp
  have "\<bar>1 / 10 ^ 8 :: real\<bar> \<le> 32" by simp
  from accurateD [OF acc this] obtain t where t: "rnd (1 / 10 ^ 8) = Fin t"
      "\<bar>t - 1 / 10 ^ 8\<bar> \<le> u * \<bar>1 / 10 ^ 8\<bar> + h"
    by blast
  have "u * \<bar>1 / 10 ^ 8 :: real\<bar> \<le> u * 1" using u0 by (intro mult_left_mono) simp_all
  with t(2) h u14 have "\<bar>t - 1 / 10 ^ 8\<bar> \<le> 2 / 100000000000000" by linarith
  then have b: "\<bar>t - 1 / 100000000\<bar> \<le> 2 / 100000000000000" by simp
  have "9 / 1000000000 \<le> t" "t \<le> 11 / 1000000000" using b by linarith+
  then have "9 / 10 ^ 9 \<le> t \<and> t \<le> 11 / 10 ^ 9" by simp
  with t(1) show ?thesis by blast
qed

lemma minimize_quad_rounded:
  fixes u h :: real
  assumes acc: "accurate rnd 32 u h" and h: "0 \<le> h" "h \<le> u" and u: "u \<le> 1 / 10 ^ 14"
    and hh: "h \<le> 1 / 10 ^ 20"
  shows "\<exists>r st' calls. minimizeSearch rnd (quad rnd 3)
       (Some (no_options\<lparr>initialIncrement := Some (Fin 1)\<rparr>)) st = Some (Fin r, st', calls) \<and>
     \<bar>r - 3\<bar> \<le> 1 / 10 ^ 6"
proof -
  let ?f = "quad rnd 3"
  have u0: "0 \<le> u" using h by simp
  have u14: "u \<le> 1 / 100000000000000" using u by simp
  have u100: "u \<le> 1 / 100" using u14 by simp
  have R16: "(16::real) \<le> 32" by simp
  from default_tolerance [OF acc h u] obtain t where
    t: "rnd (1 / 10 ^ 8) = Fin t" "9 / 10 ^ 9 \<le> t" "t \<le> 11 / 10 ^ 9"
    by blast
  have t9: "9 / 1000000000 \<le> t" "t \<le> 11 / 1000000000" using t(2,3) by simp_all
  from bracket_quad_rounded [OF acc h u] obtain xl x4 cs where
    br: "bracketMinimum rnd ?f (Fin 0) (Fin 1) = Some (Fin xl, Fin x4, cs)"
    and b: "\<bar>xl - 2\<bar> \<le> 1 / 1000" "\<bar>x4 - 4\<bar> \<le> 1 / 1000"
    by blast
  have opts: "resolved rnd (Some (no_options\<lparr>initialIncrement := Some (Fin 1)\<rparr>)) =
      (Fin t, Fin 1, NInf, PInf, Fin 100)"
    using t(1) by (simp add: resolved_def no_options_def)
  note S = quad_decisions [OF acc h u hh t(2) b]
  have R: "(4::real) \<le> 32" "4 * \<bar>xl\<bar> \<le> 32" "4 * \<bar>x4\<bar> \<le> 32"
    using b by linarith+
  have xs: "xl \<le> 3" "3 \<le> x4" using b by linarith+
  have wide: "t \<le> x4 - xl" using b t9 by linarith
  have b1: "140 * (real (50 + 2) * (u * 32 + h)) \<le> t"
  proof -
    have "140 * (52 * (u * 32 + h)) \<le> t" using u14 h t9 by argo
    then show ?thesis by simp
  qed
  have b2: "phi ^ 50 * (x4 - xl) \<le> t / 2"
  proof -
    have w3: "x4 - xl \<le> 3" "0 \<le> x4 - xl" using b by linarith+
    have "phi ^ 50 * (x4 - xl) \<le> 1 / 10 ^ 10 * 3"
      by (rule mult_mono [OF phi_power_50 w3(1) _ w3(2)]) simp
    with t9 show ?thesis by simp
  qed
  have b3: "real (50 + 1) < 100" by simp
  from refiner_accurate [OF acc h u100 R xs wide b1 b2 b3 S, of "map_option initial_status st"]
  obtain n xF p q calls where
    run: "goldenSectionMinimize rnd ?f (Fin xl) (Fin x4) (Fin t) (Fin 100)
        (map_option initial_status st) =
       Some (if lt (?f (Fin xl)) (half_sum rnd (?f (Fin p)) (?f (Fin q))) then Fin xl
             else if lt (?f (Fin x4)) (half_sum rnd (?f (Fin p)) (?f (Fin q))) then Fin x4
             else Fin xF,
             map_option (\<lambda>s. s\<lparr>iterations := Suc n, argmin := Fin xF,
               minimum := half_sum rnd (?f (Fin p)) (?f (Fin q)), converged := True\<rparr>)
               (map_option initial_status st),
             calls)"
    and r: "\<bar>xF - 3\<bar> \<le> t" "xl \<le> p" "p \<le> x4" "xl \<le> q" "q \<le> x4"
      "\<bar>p - 3\<bar> \<le> 2 * t" "\<bar>q - 3\<bar> \<le> 2 * t"
    by blast
  have rng: "\<bar>x - 3\<bar> \<le> 7 / 2" if "xl \<le> x" "x \<le> x4" for x
    using that b by linarith
  have small: "\<exists>v. ?f (Fin x) = Fin v \<and> \<bar>v\<bar> \<le> 1 / 50" if "\<bar>x - 3\<bar> \<le> 2 * t" for x
  proof -
    have x10: "\<bar>x - 3\<bar> \<le> 1 / 10" using that t9 by linarith
    then have "\<bar>x - 3\<bar> \<le> 7 / 2" by linarith
    from quad_coarse [OF acc h u100 R16 this] obtain v where
      v: "?f (Fin x) = Fin v" "\<bar>v - (x - 3) * (x - 3)\<bar> \<le> 60 * u" by blast
    have "\<bar>x - 3\<bar> * \<bar>x - 3\<bar> \<le> 1 / 10 * (1 / 10)" using x10 by (intro mult_mono) simp_all
    then have "(x - 3) * (x - 3) \<le> 1 / 100" "0 \<le> (x - 3) * (x - 3)"
      by (simp_all add: abs_mult_self_eq)
    with v(2) u14 have "\<bar>v\<bar> \<le> 1 / 50" by linarith
    with v(1) show ?thesis by blast
  qed
  have large: "\<exists>v. ?f (Fin x) = Fin v \<and> 9 / 10 \<le> v" if "99 / 100 \<le> \<bar>x - 3\<bar>" "\<bar>x - 3\<bar> \<le> 7 / 2" for x
  proof -
    from quad_coarse [OF acc h u100 R16 that(2)] obtain v where
      v: "?f (Fin x) = Fin v" "\<bar>v - (x - 3) * (x - 3)\<bar> \<le> 60 * u" by blast
    have "99 / 100 * (99 / 100) \<le> \<bar>x - 3\<bar> * \<bar>x - 3\<bar>" using that(1) by (intro mult_mono) simp_all
    then have "99 / 100 * (99 / 100) \<le> (x - 3) * (x - 3)" by (simp add: abs_mult_self_eq)
    with v(2) u14 have "9 / 10 \<le> v" by linarith
    with v(1) show ?thesis by blast
  qed
  from small [OF r(6)] obtain vp where vp: "?f (Fin p) = Fin vp" "\<bar>vp\<bar> \<le> 1 / 50" by blast
  from small [OF r(7)] obtain vq where vq: "?f (Fin q) = Fin vq" "\<bar>vq\<bar> \<le> 1 / 50" by blast
  have "99 / 100 \<le> \<bar>xl - 3\<bar>" "\<bar>xl - 3\<bar> \<le> 7 / 2" using b by linarith+
  from large [OF this] obtain va where va: "?f (Fin xl) = Fin va" "9 / 10 \<le> va" by blast
  have "99 / 100 \<le> \<bar>x4 - 3\<bar>" "\<bar>x4 - 3\<bar> \<le> 7 / 2" using b by linarith+
  from large [OF this] obtain vb where vb: "?f (Fin x4) = Fin vb" "9 / 10 \<le> vb" by blast
  define e where "e = u * 32 + h"
  have e0: "0 \<le> e" "e \<le> 1 / 100" using u0 h u14 by (simp_all add: e_def)
  have acc0: "\<forall>x. \<bar>x\<bar> \<le> 32 \<longrightarrow> (\<exists>y. rnd x = Fin y \<and> \<bar>y - x\<bar> \<le> e)"
    unfolding e_def using accurate_absolute [OF acc u0] by blast
  have "\<bar>vp\<bar> \<le> 1" "\<bar>vq\<bar> \<le> 1" "3 * 1 + 2 * e \<le> 32" using vp(2) vq(2) e0 by linarith+
  from half_sum_rounded [OF acc0 e0(1) this] obtain z where
    z: "half_sum rnd (Fin vp) (Fin vq) = Fin z" "\<bar>z - (vp + vq) / 2\<bar> \<le> 2 * e"
    by blast
  have z1: "z \<le> 1 / 10" using z(2) vp(2) vq(2) e0 by argo
  have res: "goldenSectionMinimize rnd ?f (Fin xl) (Fin x4) (Fin t) (Fin 100)
        (map_option initial_status st) =
       Some (Fin xF, map_option (\<lambda>s. s\<lparr>iterations := Suc n, argmin := Fin xF,
               minimum := Fin z, converged := True\<rparr>) (map_option initial_status st), calls)"
    using z1 va(2) vb(2) unfolding run vp(1) vq(1) va(1) vb(1) z(1) by simp
  have "minimizeSearch rnd ?f (Some (no_options\<lparr>initialIncrement := Some (Fin 1)\<rparr>)) st =
      Some (Fin xF, map_option (\<lambda>s. s\<lparr>iterations := Suc n, argmin := Fin xF,
               minimum := Fin z, converged := True\<rparr>) (map_option initial_status st),
            cs @ calls)"
    by (simp add: minimizeSearch_resolved [OF opts] gt_def br res)
  moreover have "\<bar>xF - 3\<bar> \<le> 1 / 10 ^ 6" using r(1) t9 by simp
  ultimately show ?thesis by blast
qed

subsection \<open>A steep function\<close>

lemma steep_real_upper: "y \<le> 0 \<Longrightarrow> exp y - y \<le> 1 - (y::real)"
  by simp

lemma steep_real_lower: "0 \<le> y \<Longrightarrow> 1 + y\<^sup>2 / 2 \<le> exp y - (y::real)"
  using exp_lower_Taylor_quadratic [of y] by simp

lemma steep_first_decision: "steep_real phi \<le> steep_real (1 - phi)"
proof -
  have "steep_real phi \<le> 1 - (1024 * phi - 704)"
    unfolding steep_real_def using phi_bounds(2) by (intro steep_real_upper) simp
  also have "\<dots> \<le> - (1024 * (1 - phi) - 704)"
    using phi_gt_06 by simp
  also have "\<dots> \<le> steep_real (1 - phi)"
    unfolding steep_real_def by simp
  finally show ?thesis .
qed

lemma steep_left_below_estimate:
  "steep_real 0 < (steep_real phi + steep_real (2 - 2 * phi)) / 2"
proof -
  have "steep_real 0 \<le> 1 - (1024 * 0 - 704)"
    unfolding steep_real_def by (intro steep_real_upper) simp
  then have a: "steep_real 0 \<le> 705" by simp
  have "0 < exp (1024 * phi - 704)" by simp
  moreover have "1024 * phi - 704 \<le> 0" using phi_bounds(2) by simp
  ultimately have b: "0 \<le> steep_real phi"
    unfolding steep_real_def by linarith
  have y: "74 \<le> 1024 * (2 - 2 * phi) - 704" using phi_bounds(2) by simp
  then have "74 * 74 \<le> (1024 * (2 - 2 * phi) - 704) * (1024 * (2 - 2 * phi) - 704)"
    by (intro mult_mono) simp_all
  then have "1 + 74 * 74 / 2 \<le> 1 + (1024 * (2 - 2 * phi) - 704)\<^sup>2 / 2"
    by (simp add: power2_eq_square)
  also have "\<dots> \<le> steep_real (2 - 2 * phi)"
    unfolding steep_real_def using y by (intro steep_real_lower) simp
  finally have c: "2739 \<le> steep_real (2 - 2 * phi)" by simp
  from a b c show ?thesis by simp
qed

lemma steep_eval:
  "goldenSectionMinimize exact steep (Fin 0) (Fin 1) (Fin (5 / 8)) (Fin 100) None =
     Some (Fin 0, None, [Fin (1 - phi), Fin phi, Fin 0, Fin 1, Fin (2 - 2 * phi)])"
proof -
  have d1: "\<not> steep_real (1 - phi) < steep_real phi"
    using steep_first_decision by simp
  have w: "\<not> 5 / 8 < phi" using phi_bounds(2) by simp
  have pp: "\<bar>phi\<bar> = phi" using phi_pos by simp
  have pass2: "golden_loop exact steep (Fin (5 / 8)) (Fin 100) (Suc 0) (Fin (1 - phi)) (Fin 1)
      x1 x2 f1 f2 calls = Some (2, Fin (1 - phi), Fin 1, f1, f2, calls)" for x1 x2 f1 f2 calls
    using w by (subst golden_loop.simps) (simp add: pp)
  have start: "golden_start exact steep (Fin (5 / 8)) (Fin 100) (Fin 0) (Fin 1) =
      Some (2, Fin (1 - phi), Fin 1, Fin (steep_real phi), Fin (steep_real (2 - 2 * phi)),
            [Fin (1 - phi), Fin phi, Fin 0, Fin 1, Fin (2 - 2 * phi)])"
    apply (simp add: golden_start_def probe1_def probe2_def)
    apply (subst golden_loop.simps)
    apply (simp add: d1 Let_def pass2 second_probe)
    done
  show ?thesis
    using steep_left_below_estimate
    by (simp add: goldenSectionMinimize_start start golden_finish_cases)
qed

lemma steep_minimum: "steep_real (11 / 16) \<le> steep_real x"
proof -
  have "1 + (1024 * x - 704) \<le> exp (1024 * x - 704)" by (rule exp_ge_add_one_self)
  then show ?thesis by (simp add: steep_real_def)
qed

subsection \<open>The value returned by the entry point\<close>

lemma minimize_bounded:
  assumes "resolved exact opts = (tol, dx, Fin a, Fin b, maxIt)"
  shows "minimizeSearch exact f opts st =
    goldenSectionMinimize exact f (Fin a) (Fin b) tol maxIt (map_option initial_status st)"
  by (simp add: minimizeSearch_resolved [OF assms])

text \<open>
  C1, as amended. Take an arithmetic that is accurate on the range \<open>R\<close>, with
  \<open>h \<le> u \<le> 1/100\<close>, and finite bounds \<open>a \<le> xs \<le> b\<close> of magnitude at most \<open>R/4\<close>, at
  least the tolerance \<open>t\<close> apart, and a function that tells the side of \<open>xs\<close> on
  \<open>[a, b]\<close> for points more than \<open>t/10\<close> apart. If \<open>phi ^ N * (b - a)\<close> is at most
  \<open>t/2\<close> for some \<open>N\<close> with \<open>N + 1\<close> below the cap and
  \<open>140 (N + 2) (u R + h) \<le> t\<close>, the entry point returns after at most \<open>N + 1\<close>
  iterations with \<open>converged\<close> true; the midpoint reported as \<open>argmin\<close> is within
  \<open>t\<close> of \<open>xs\<close>; the reported minimum is the rounded mean of \<open>f\<close> at two points of
  \<open>[a, b]\<close> within \<open>2 t\<close> of \<open>xs\<close>; and the value returned is that midpoint unless
  the value of \<open>f\<close> at the lower or at the upper bound is below the reported minimum, in
  which case that bound is returned. A function whose values on \<open>[a, b]\<close> strictly
  decrease up to \<open>xs\<close> and strictly increase from \<open>xs\<close> tells the side of \<open>xs\<close>. For
  \<^verbatim>\<open>(x - 3) * (x - 3)\<close>, without bounds and with the initial increment \<open>1\<close>, in every
  arithmetic accurate on the range \<open>32\<close> with \<open>h \<le> u \<le> 1e-14\<close> and \<open>h \<le> 1e-20\<close>, the
  entry point returns a value within \<open>1e-6\<close> of \<open>3\<close>. The rounding of binary64 is
  accurate on every range up to \<open>2\<^sup>1\<^sup>0\<^sup>2\<^sup>3\<close> with \<open>u = 2\<^sup>-\<^sup>5\<^sup>3\<close> and
  \<open>h = 2\<^sup>-\<^sup>1\<^sup>0\<^sup>7\<^sup>5\<close>.
\<close>

theorem minimize_unimodal:
  "(accurate rnd R u h \<and> 0 \<le> h \<and> h \<le> u \<and> u \<le> 1 / 100 \<and>
    4 \<le> R \<and> 4 * \<bar>a\<bar> \<le> R \<and> 4 * \<bar>b\<bar> \<le> R \<and>
    resolved rnd opts = (Fin t, dx, Fin a, Fin b, Fin m) \<and> a \<le> xs \<and> xs \<le> b \<and> t \<le> b - a \<and>
    tells_side f a b xs (t / 10) \<and>
    140 * (real (N + 2) * (u * R + h)) \<le> t \<and> phi ^ N * (b - a) \<le> t / 2 \<and> real (N + 1) < m \<longrightarrow>
      (\<exists>v s' calls xF p q.
         minimizeSearch rnd f opts (Some s) = Some (v, Some s', calls) \<and>
         converged s' \<and> iterations s' \<le> N + 1 \<and> argmin s' = Fin xF \<and> \<bar>xF - xs\<bar> \<le> t \<and>
         minimum s' = half_sum rnd (f (Fin p)) (f (Fin q)) \<and>
         a \<le> p \<and> p \<le> b \<and> a \<le> q \<and> q \<le> b \<and> \<bar>p - xs\<bar> \<le> 2 * t \<and> \<bar>q - xs\<bar> \<le> 2 * t \<and>
         v = (if lt (f (Fin a)) (minimum s') then Fin a
              else if lt (f (Fin b)) (minimum s') then Fin b else Fin xF))) \<and>
   (a \<le> xs \<and> xs \<le> b \<and> 0 \<le> d \<and>
    (\<forall>x y. a \<le> x \<and> x < y \<and> y \<le> xs \<longrightarrow> g y < g x) \<and>
    (\<forall>x y. xs \<le> x \<and> x < y \<and> y \<le> b \<longrightarrow> g x < g y) \<and>
    (\<forall>x. a \<le> x \<and> x \<le> b \<longrightarrow> f (Fin x) = Fin (g x)) \<longrightarrow>
      tells_side f a b xs d) \<and>
   (accurate rnd 32 u h \<and> 0 \<le> h \<and> h \<le> u \<and> u \<le> 1 / 10 ^ 14 \<and> h \<le> 1 / 10 ^ 20 \<longrightarrow>
      (\<exists>r st' calls.
         minimizeSearch rnd (quad rnd 3) (Some (no_options\<lparr>initialIncrement := Some (Fin 1)\<rparr>))
           st = Some (Fin r, st', calls) \<and>
         \<bar>r - 3\<bar> \<le> 1 / 10 ^ 6)) \<and>
   (R \<le> 2 ^ 1023 \<longrightarrow> accurate binary64 R (1 / 2 ^ 53) (1 / 2 ^ 1075))"
proof -
  have A: "\<exists>v s' calls xF p q.
         minimizeSearch rnd f opts (Some s) = Some (v, Some s', calls) \<and>
         converged s' \<and> iterations s' \<le> N + 1 \<and> argmin s' = Fin xF \<and> \<bar>xF - xs\<bar> \<le> t \<and>
         minimum s' = half_sum rnd (f (Fin p)) (f (Fin q)) \<and>
         a \<le> p \<and> p \<le> b \<and> a \<le> q \<and> q \<le> b \<and> \<bar>p - xs\<bar> \<le> 2 * t \<and> \<bar>q - xs\<bar> \<le> 2 * t \<and>
         v = (if lt (f (Fin a)) (minimum s') then Fin a
              else if lt (f (Fin b)) (minimum s') then Fin b else Fin xF)"
    if "accurate rnd R u h \<and> 0 \<le> h \<and> h \<le> u \<and> u \<le> 1 / 100 \<and>
    4 \<le> R \<and> 4 * \<bar>a\<bar> \<le> R \<and> 4 * \<bar>b\<bar> \<le> R \<and>
    resolved rnd opts = (Fin t, dx, Fin a, Fin b, Fin m) \<and> a \<le> xs \<and> xs \<le> b \<and> t \<le> b - a \<and>
    tells_side f a b xs (t / 10) \<and>
    140 * (real (N + 2) * (u * R + h)) \<le> t \<and> phi ^ N * (b - a) \<le> t / 2 \<and> real (N + 1) < m"
    by (rule minimize_rounded [where R = R and u = u and h = h and dx = dx and m = m])
       (use that in blast)+
  have B: "tells_side f a b xs d"
    if "a \<le> xs \<and> xs \<le> b \<and> 0 \<le> d \<and>
    (\<forall>x y. a \<le> x \<and> x < y \<and> y \<le> xs \<longrightarrow> g y < g x) \<and>
    (\<forall>x y. xs \<le> x \<and> x < y \<and> y \<le> b \<longrightarrow> g x < g y) \<and>
    (\<forall>x. a \<le> x \<and> x \<le> b \<longrightarrow> f (Fin x) = Fin (g x))"
  proof -
    from that have t: "0 \<le> 10 * d" and xs: "a \<le> xs" "xs \<le> b"
      and dec: "\<forall>x y. a \<le> x \<and> x < y \<and> y \<le> xs \<longrightarrow> g y < g x"
      and inc: "\<forall>x y. xs \<le> x \<and> x < y \<and> y \<le> b \<longrightarrow> g x < g y"
      and fg: "\<forall>x. a \<le> x \<and> x \<le> b \<longrightarrow> f (Fin x) = Fin (g x)"
      by simp_all
    from unimodal_decisions [OF xs t dec inc fg] show ?thesis
      by (intro tells_sideI) simp_all
  qed
  have C: "\<exists>r st' calls.
         minimizeSearch rnd (quad rnd 3) (Some (no_options\<lparr>initialIncrement := Some (Fin 1)\<rparr>))
           st = Some (Fin r, st', calls) \<and>
         \<bar>r - 3\<bar> \<le> 1 / 10 ^ 6"
    if "accurate rnd 32 u h \<and> 0 \<le> h \<and> h \<le> u \<and> u \<le> 1 / 10 ^ 14 \<and> h \<le> 1 / 10 ^ 20"
    by (rule minimize_quad_rounded [where u = u and h = h]) (use that in blast)+
  have D: "accurate binary64 R (1 / 2 ^ 53) (1 / 2 ^ 1075)" if "R \<le> 2 ^ 1023"
    using that by (rule binary64_accurate)
  from A B C D show ?thesis by blast
qed

theorem minimize_unimodal_witness:
  "accurate binary64 32 (1 / 2 ^ 53) (1 / 2 ^ 1075) \<and>
   (\<exists>r st' calls.
      minimizeSearch binary64 (quad binary64 3)
        (Some (no_options\<lparr>initialIncrement := Some (Fin 1)\<rparr>)) None = Some (Fin r, st', calls) \<and>
      \<bar>r - 3\<bar> \<le> 1 / 10 ^ 6) \<and>
   tells_side (quad exact 3) 2 4 3 (1 / 10 ^ 9) \<and>
   (\<exists>t. resolved binary64 (Some (no_options\<lparr>lowerBound := Some (Fin 2),
            upperBound := Some (Fin 4)\<rparr>)) = (Fin t, Fin 1, Fin 2, Fin 4, Fin 100) \<and>
      t \<le> 11 / 10 ^ 9 \<and> tells_side (quad binary64 3) 2 4 3 (t / 10) \<and>
      (\<exists>v s' calls xF.
         minimizeSearch binary64 (quad binary64 3)
           (Some (no_options\<lparr>lowerBound := Some (Fin 2), upperBound := Some (Fin 4)\<rparr>))
           (Some blank_status) = Some (v, Some s', calls) \<and>
         converged s' \<and> iterations s' \<le> 51 \<and> argmin s' = Fin xF \<and> \<bar>xF - 3\<bar> \<le> t))"
proof -
  let ?u = "1 / 2 ^ 53 :: real" and ?h = "1 / 2 ^ 1075 :: real"
  let ?opts = "Some (no_options\<lparr>lowerBound := Some (Fin 2), upperBound := Some (Fin 4)\<rparr>)"
  have acc: "accurate binary64 32 ?u ?h"
    by (rule minimize_unimodal [THEN conjunct2, THEN conjunct2, THEN conjunct2, rule_format])
       simp
  have uh: "0 \<le> ?h" "?h \<le> ?u" "?u \<le> 1 / 10 ^ 14" "?h \<le> 1 / 10 ^ 20" "?u \<le> 1 / 100"
    by simp_all
  have scenario: "\<exists>r st' calls.
      minimizeSearch binary64 (quad binary64 3)
        (Some (no_options\<lparr>initialIncrement := Some (Fin 1)\<rparr>)) None = Some (Fin r, st', calls) \<and>
      \<bar>r - 3\<bar> \<le> 1 / 10 ^ 6"
    by (rule minimize_unimodal [THEN conjunct2, THEN conjunct2, THEN conjunct1, rule_format,
          where u = ?u and h = ?h])
       (use acc uh in blast)
  have side_exact: "tells_side (quad exact 3) 2 4 3 (1 / 10 ^ 9)"
    by (rule minimize_unimodal [THEN conjunct2, THEN conjunct1, rule_format,
          where g = "\<lambda>x. (x - 3) * (x - 3)"])
       (simp add: square_dec square_inc)
  from default_tolerance [OF acc uh(1,2,3)] obtain t where
    t: "binary64 (1 / 10 ^ 8) = Fin t" "9 / 10 ^ 9 \<le> t" "t \<le> 11 / 10 ^ 9"
    by blast
  have t9: "9 / 1000000000 \<le> t" "t \<le> 11 / 1000000000" using t(2,3) by simp_all
  have opts: "resolved binary64 ?opts = (Fin t, Fin 1, Fin 2, Fin 4, Fin 100)"
    using t(1) by (simp add: resolved_def no_options_def)
  have b: "\<bar>2 - 2 :: real\<bar> \<le> 1 / 1000" "\<bar>4 - 4 :: real\<bar> \<le> 1 / 1000" by simp_all
  have side: "tells_side (quad binary64 3) 2 4 3 (t / 10)"
    using quad_decisions [OF acc uh(1,2,3,4) t(2) b] by (intro tells_sideI)
  have b1: "140 * (real (50 + 2) * (?u * 32 + ?h)) \<le> t"
  proof -
    have "140 * (real (50 + 2) * (?u * 32 + ?h)) \<le> 9 / 1000000000" by simp
    with t9 show ?thesis by linarith
  qed
  have b2: "phi ^ 50 * (4 - 2) \<le> t / 2"
  proof -
    have "phi ^ 50 * (4 - 2) \<le> 1 / 10 ^ 10 * (4 - 2)"
      using phi_power_50 by (rule mult_right_mono) simp
    with t9 show ?thesis by simp
  qed
  have "\<exists>v s' calls xF p q.
         minimizeSearch binary64 (quad binary64 3) ?opts (Some blank_status) =
           Some (v, Some s', calls) \<and>
         converged s' \<and> iterations s' \<le> 50 + 1 \<and> argmin s' = Fin xF \<and> \<bar>xF - 3\<bar> \<le> t \<and>
         minimum s' = half_sum binary64 (quad binary64 3 (Fin p)) (quad binary64 3 (Fin q)) \<and>
         2 \<le> p \<and> p \<le> 4 \<and> 2 \<le> q \<and> q \<le> 4 \<and> \<bar>p - 3\<bar> \<le> 2 * t \<and> \<bar>q - 3\<bar> \<le> 2 * t \<and>
         v = (if lt (quad binary64 3 (Fin 2)) (minimum s') then Fin 2
              else if lt (quad binary64 3 (Fin 4)) (minimum s') then Fin 4 else Fin xF)"
    by (rule minimize_unimodal [THEN conjunct1, rule_format,
          where R = 32 and u = ?u and h = ?h and dx = "Fin 1" and m = 100])
       (use acc uh opts side b1 b2 t9 in simp)
  then have run: "\<exists>v s' calls xF.
         minimizeSearch binary64 (quad binary64 3) ?opts (Some blank_status) =
           Some (v, Some s', calls) \<and>
         converged s' \<and> iterations s' \<le> 51 \<and> argmin s' = Fin xF \<and> \<bar>xF - 3\<bar> \<le> t"
    by auto
  from acc scenario side_exact opts t(3) side run show ?thesis by blast
qed

text \<open>
  C1, as the claim words it, fails twice. With the cap \<open>1\<close> the entry point returns
  NaN for \<^verbatim>\<open>(x - 3) * (x - 3)\<close> on \<open>[0, 10]\<close>. And for the steep function on
  \<open>[0, 1]\<close>, with the tolerance \<open>5/8\<close>, the loop ends within its budget on an
  interval that holds the minimiser \<open>11/16\<close>, but the value at the lower bound is below
  the mean of the two probe values, and the lower bound \<open>0\<close> is returned, farther from
  the minimiser than the tolerance.
\<close>

theorem minimize_misses_minimizer:
  "minimizeSearch exact (quad exact 3)
       (Some (no_options\<lparr>lowerBound := Some (Fin 0), upperBound := Some (Fin 10),
                maxIterations := Some (Fin 1)\<rparr>)) None =
     Some (NaN, None, [Fin (10 - phi * 10), Fin (phi * 10), Fin 0, Fin 10]) \<and>
   minimizeSearch exact steep
       (Some (no_options\<lparr>tolerance := Some (Fin (5 / 8)), lowerBound := Some (Fin 0),
                upperBound := Some (Fin 1)\<rparr>)) None =
     Some (Fin 0, None, [Fin (1 - phi), Fin phi, Fin 0, Fin 1, Fin (2 - 2 * phi)]) \<and>
   (\<forall>x. steep_real (11 / 16) \<le> steep_real x) \<and> (5 / 8 :: real) < \<bar>0 - 11 / 16\<bar>"
proof -
  have r1: "resolved exact (Some (no_options\<lparr>lowerBound := Some (Fin 0),
      upperBound := Some (Fin 10), maxIterations := Some (Fin 1)\<rparr>)) =
      (Fin (1 / 10 ^ 8), Fin 1, Fin 0, Fin 10, Fin 1)"
    by (simp add: resolved_def no_options_def)
  have r2: "resolved exact (Some (no_options\<lparr>tolerance := Some (Fin (5 / 8)),
      lowerBound := Some (Fin 0), upperBound := Some (Fin 1)\<rparr>)) =
      (Fin (5 / 8), Fin 1, Fin 0, Fin 1, Fin 100)"
    by (simp add: resolved_def no_options_def)
  have "goldenSectionMinimize exact (quad exact 3) (Fin 0) (Fin 10) (Fin (1 / 10 ^ 8)) (Fin 1) None =
     Some (NaN, None, [Fin (10 - phi * 10), Fin (phi * 10), Fin 0, Fin 10])"
    by (simp add: goldenSectionMinimize_start golden_start_no_pass golden_finish_cases
        probe1_def probe2_def)
  then show ?thesis
    using steep_eval steep_minimum
    by (simp add: minimize_bounded [OF r1] minimize_bounded [OF r2])
qed

end
